theory Spec2Isabelle
  imports Main "HOL-Library.Word"
begin

section \<open>The timeline core of TimelineView.cpp\<close>

text \<open>
  The theory embeds the event stream (\<open>prepend\<close>, \<open>append\<close>, \<open>add_pending\<close>,
  \<open>redact\<close>), the redaction applicator (\<open>EventLike::redact\<close>), the block partitioner
  (\<open>block_border\<close>, \<open>rebuild_blocks\<close>, the \<open>EventBlock\<close> constructor) and the
  selection resolver (\<open>cursor_in\<close>, \<open>selection_for\<close>, \<open>EventBlock::draw\<close>) of
  \<^verbatim>\<open>src/TimelineView.cpp\<close>.

  Conventions.
  \<^item> Fields of a C++ class become fields of a record; since record fields share one name
    space, each carries a short prefix of its class (\<open>ev_\<close> for \<open>EventLike\<close>, \<open>re_\<close> for
    \<open>matrix::event::Room\<close>, \<open>eb_\<close> for \<open>EventBlock\<close>, ...).
  \<^item> A \<open>throw\<close> and every undefined read of the C++ (dereferencing an end iterator or an
    empty \<open>optional\<close>, indexing an empty span) is a value of type \<open>error\<close>.
  \<^item> \<open>TimelineView.hpp\<close> is not among the sources. \<open>TimelineEventID\<close> wraps the counter
    \<open>id_counter_\<close>, modelled as \<open>nat\<close>. \<open>Time\<close> is a \<open>std::chrono\<close> time point; it is
    taken with the representation of \<open>std::chrono::milliseconds\<close>, a signed 64-bit count
    of milliseconds since the epoch. A time is an \<open>int\<close> in that range: the
    \<open>uint64_t\<close> \<open>origin_server_ts\<close> is read as a signed value, and the difference of two
    time points wraps around at 64 bits (\<open>int64\<close>).
  \<^item> Offsets into a text and lengths are C++ \<open>int\<close>, modelled as \<open>int\<close> in the 32-bit
    range; where a result can leave that range it wraps around (\<open>int32\<close>).
  \<^item> Painting, fonts, text shaping and the Qt signals are left out; the text layouts of a
    block are supplied by a \<open>renderer\<close>.
\<close>

subsection \<open>Machine integers\<close>

text \<open>
  The value of a signed 32-bit, respectively 64-bit, computation whose exact result is
  \<open>x\<close>: \<open>x\<close> wrapped into the two's complement range.
\<close>

definition int32 :: "int \<Rightarrow> int" where
  "int32 x = sint (word_of_int x :: 32 word)"

definition int64 :: "int \<Rightarrow> int" where
  "int64 x = sint (word_of_int x :: 64 word)"

subsection \<open>Events of the protocol layer\<close>

datatype json =
    JNull
  | JBool bool
  | JNumber int
  | JString string
  | JArray "json list"
  | JObject "(string \<times> json) list"

type_synonym content = "(string \<times> json) list"

record unsigned_data =
  transaction_id :: "string option"

record room_event =
  re_id :: string
  re_sender :: string
  re_origin_server_ts :: "64 word"
  re_type :: string
  re_content :: content
  re_state_key :: string
  re_redacts :: string
  re_unsigned_data :: "unsigned_data option"

record redaction =
  rd_redacts :: string
  rd_reason :: "string option"

record room_state =
  member_from_id :: "string \<Rightarrow> content option"
  member_disambiguation :: "string \<Rightarrow> string option"

definition Member_tag :: string where
  "Member_tag = ''m.room.member''"

definition Redaction_tag :: string where
  "Redaction_tag = ''m.room.redaction''"

definition MemberContent_leave :: content where
  "MemberContent_leave = [(''membership'', JString ''leave'')]"

text \<open>
  Modelled from the spec: \<open>matrix::event::Room::redact\<close> is defined in the matrix layer
  (\<open>matrix/Event.cpp\<close>), which is not among the sources. The redaction applicator is
  said to "mutate the record's underlying source content to its redacted form". What the
  redacted form of a content is, is the parameter \<open>redacted_form\<close>. Only this effect on
  the content is modelled; what else the matrix layer stores in the event is left out.
\<close>

definition Room_redact :: "(content \<Rightarrow> content) \<Rightarrow> redaction \<Rightarrow> room_event \<Rightarrow> room_event" where
  "Room_redact redacted_form because e = e\<lparr>re_content := redacted_form (re_content e)\<rparr>"

subsection \<open>Event records\<close>

datatype error =
    logic_error string
  | end_iterator_dereferenced
  | empty_optional_dereferenced
  | empty_span_indexed
  | front_of_empty_container

record member_info =
  mi_user :: string
  mi_prev_content :: content

record event_like =
  ev_id :: nat
  ev_type :: string
  ev_time :: "int option"
  ev_sender :: string
  ev_redacts :: "string option"
  ev_content :: content
  ev_event :: "room_event option"
  ev_affected_user_info :: "member_info option"
  ev_member_content :: "content option"
  ev_disambiguation :: "string option"

definition to_time_point :: "64 word \<Rightarrow> int" where
  "to_time_point ts = sint ts"

definition get_affected_user :: "room_event \<Rightarrow> string option" where
  "get_affected_user e = (if re_type e \<noteq> Member_tag then None else Some (re_state_key e))"

definition get_redacts :: "room_event \<Rightarrow> string option" where
  "get_redacts e = (if re_type e \<noteq> Redaction_tag then None else Some (re_redacts e))"

text \<open>The second constructor of \<open>EventLike\<close>: a record with no confirmed source.\<close>

definition EventLike ::
  "nat \<Rightarrow> room_state \<Rightarrow> string \<Rightarrow> int \<Rightarrow> string \<Rightarrow> content \<Rightarrow> string option \<Rightarrow> string option
   \<Rightarrow> event_like" where
  "EventLike i state sender t ty c affected_user redacts =
     \<lparr> ev_id = i, ev_type = ty, ev_time = Some t, ev_sender = sender, ev_redacts = redacts,
       ev_content = c, ev_event = None,
       ev_affected_user_info =
         (case affected_user of
            None \<Rightarrow> None
          | Some u \<Rightarrow>
              Some \<lparr> mi_user = u,
                     mi_prev_content =
                       (case member_from_id state u of
                          Some m \<Rightarrow> m
                        | None \<Rightarrow> MemberContent_leave) \<rparr>),
       ev_member_content = member_from_id state sender,
       ev_disambiguation =
         (case member_from_id state sender of
            None \<Rightarrow> None
          | Some m \<Rightarrow> member_disambiguation state sender) \<rparr>"

text \<open>The first constructor: a record built from a confirmed event, which it keeps.\<close>

definition EventLike_real :: "nat \<Rightarrow> room_state \<Rightarrow> room_event \<Rightarrow> event_like" where
  "EventLike_real i state real =
     (EventLike i state (re_sender real) (to_time_point (re_origin_server_ts real))
        (re_type real) (re_content real) (get_affected_user real) (get_redacts real))
     \<lparr> ev_event := Some real \<rparr>"

text \<open>
  \<open>EventLike::redact\<close> mutates the record in place or throws before it has changed
  anything. The model returns the record as it is after the call, and the exception
  thrown, if any.
\<close>

definition EventLike_redact ::
  "(content \<Rightarrow> content) \<Rightarrow> redaction \<Rightarrow> event_like \<Rightarrow> event_like \<times> error option" where
  "EventLike_redact redacted_form because e =
     (case ev_event e of
        None \<Rightarrow> (e, Some (logic_error ''tried to redact a fake event''))
      | Some ev \<Rightarrow>
          (let ev' = Room_redact redacted_form because ev
           in (e\<lparr> ev_event := Some ev', ev_time := None, ev_content := re_content ev' \<rparr>, None)))"

record pending_record =
  p_transaction :: string
  p_event :: event_like

record batch =
  b_begin :: string
  b_events :: "event_like list"

subsection \<open>Text layouts, cursors and selections\<close>

text \<open>
  A \<open>QTextLayout\<close> as the selection resolver uses it: its text and the two word-wise
  cursor movements (\<open>nextCursorPosition\<close> and \<open>previousCursorPosition\<close> in mode
  \<open>SkipWords\<close>), which belong to the text layout engine.
\<close>

record layout =
  l_text :: string
  nextCursorPosition :: "int \<Rightarrow> int"
  previousCursorPosition :: "int \<Rightarrow> int"

datatype cursor_type = NAME | TIMESTAMP | BODY

record cursor =
  c_type :: cursor_type
  c_event :: nat
  c_paragraph :: nat
  c_pos :: int

datatype selection_mode = CHARACTER | WORD | PARAGRAPH

record selection =
  s_begin :: cursor
  s_end :: cursor
  s_mode :: selection_mode

record text_range =
  r_start :: int
  r_length :: int

record selection_result =
  continues :: bool
  affected :: text_range

definition cursor_in :: "cursor \<Rightarrow> nat \<Rightarrow> cursor_type \<Rightarrow> nat \<Rightarrow> bool" where
  "cursor_in c i ty paragraph \<longleftrightarrow> c_event c = i \<and> c_type c = ty \<and> c_paragraph c = paragraph"

definition text_size :: "layout \<Rightarrow> int" where
  "text_size l = int (length (l_text l))"

text \<open>
  \<open>selection_for\<close>. Two of its results can leave the range of \<open>int\<close> for cursor
  offsets that are values of an \<open>int\<close>: the difference of the larger and the smaller
  offset, and the sum of start and length in \<open>WORD\<close> mode; they wrap around. The other
  differences are taken between values from 0 to the length of the text.
\<close>

definition selection_for ::
  "nat \<Rightarrow> cursor_type \<Rightarrow> layout \<Rightarrow> bool \<Rightarrow> selection \<Rightarrow> nat \<Rightarrow> selection_result option" where
  "selection_for i ty l bottom_selected sel paragraph =
     (let begin_applies = cursor_in (s_begin sel) i ty paragraph;
          end_applies = cursor_in (s_end sel) i ty paragraph;
          result =
            (if begin_applies \<and> end_applies then
               (let st = min (c_pos (s_begin sel)) (c_pos (s_end sel))
                in Some \<lparr> continues = False,
                          affected = \<lparr> r_start = st,
                                       r_length =
                                         int32 (max (c_pos (s_begin sel)) (c_pos (s_end sel))
                                                - st) \<rparr> \<rparr>)
             else if begin_applies \<or> end_applies then
               (let endpoint = c_pos (if begin_applies then s_begin sel else s_end sel)
                in if bottom_selected then
                     (let st = max 0 endpoint
                      in Some \<lparr> continues = False,
                                affected = \<lparr> r_start = st, r_length = text_size l - st \<rparr> \<rparr>)
                   else
                     Some \<lparr> continues = True,
                            affected = \<lparr> r_start = 0, r_length = min (text_size l) endpoint \<rparr> \<rparr>)
             else if bottom_selected then
               Some \<lparr> continues = True, affected = \<lparr> r_start = 0, r_length = text_size l \<rparr> \<rparr>
             else None)
      in case result of
           None \<Rightarrow> None
         | Some r \<Rightarrow>
             Some (case s_mode sel of
                     CHARACTER \<Rightarrow> r
                   | WORD \<Rightarrow>
                       (let len = nextCursorPosition l
                                    (int32 (r_start (affected r) + r_length (affected r)));
                            st = previousCursorPosition l (r_start (affected r))
                        in r\<lparr> affected := \<lparr> r_start = st, r_length = len \<rparr> \<rparr>)
                   | PARAGRAPH \<Rightarrow> r\<lparr> affected := \<lparr> r_start = 0, r_length = text_size l \<rparr> \<rparr>))"

subsection \<open>Display blocks\<close>

record time_info =
  ti_start :: int
  ti_end :: int

record block_event =
  be_id :: nat
  be_time :: "int option"
  be_source :: "room_event option"
  be_paragraphs :: "layout list"

record event_block =
  eb_sender :: string
  eb_time :: "time_info option"
  eb_name :: layout
  eb_timestamp :: layout
  eb_events :: "block_event list"

text \<open>
  What the constructors of \<open>EventBlock\<close> and \<open>EventBlock::Event\<close> and
  \<open>EventBlock::update_layout\<close> compute with fonts, translations and the text layout
  engine: the layout of the name from the block's first event, the layout of the timestamp
  from the block's time range, and the paragraphs of an event from the name text, the
  block's sender and the event.
\<close>

record renderer =
  rn_name :: "event_like \<Rightarrow> layout"
  rn_timestamp :: "time_info option \<Rightarrow> layout"
  rn_paragraphs :: "string \<Rightarrow> string \<Rightarrow> event_like \<Rightarrow> layout list"

definition Event :: "renderer \<Rightarrow> string \<Rightarrow> string \<Rightarrow> event_like \<Rightarrow> block_event" where
  "Event R name_text block_sender e =
     \<lparr> be_id = ev_id e, be_time = ev_time e, be_source = ev_event e,
       be_paragraphs = rn_paragraphs R name_text block_sender e \<rparr>"

text \<open>
  The constructor of \<open>EventBlock\<close>. It reads \<open>events[0]\<close> first, and, when the first
  event has a time, dereferences the time of the last event.
\<close>

definition EventBlock :: "renderer \<Rightarrow> event_like list \<Rightarrow> error + event_block" where
  "EventBlock R events =
     (case events of
        [] \<Rightarrow> Inl empty_span_indexed
      | front # _ \<Rightarrow>
          (case (case ev_time front of
                   None \<Rightarrow> Inr None
                 | Some t0 \<Rightarrow>
                     (case ev_time (last events) of
                        None \<Rightarrow> Inl empty_optional_dereferenced
                      | Some t1 \<Rightarrow> Inr (Some \<lparr> ti_start = t0, ti_end = t1 \<rparr>))) of
             Inl x \<Rightarrow> Inl x
           | Inr ti \<Rightarrow>
               Inr \<lparr> eb_sender = ev_sender front, eb_time = ti, eb_name = rn_name R front,
                     eb_timestamp = rn_timestamp R ti,
                     eb_events =
                       map (Event R (l_text (rn_name R front)) (ev_sender front)) events \<rparr>))"

text \<open>\<open>BLOCK_MERGE_INTERVAL\<close> is \<open>std::chrono::minutes(5)\<close>, here in milliseconds.\<close>

definition BLOCK_MERGE_INTERVAL :: int where
  "BLOCK_MERGE_INTERVAL = 5 * 60 * 1000"

text \<open>Whether two events should be assigned to distinct blocks.\<close>

definition block_border :: "event_like \<Rightarrow> event_like \<Rightarrow> bool" where
  "block_border a b \<longleftrightarrow>
     ev_sender b \<noteq> ev_sender a \<or> ev_time b = None \<or> ev_time a = None
     \<or> int64 (the (ev_time b) - the (ev_time a)) > BLOCK_MERGE_INTERVAL"

subsection \<open>The view: batches, pending queue, blocks\<close>

record timeline_view =
  batches :: "batch list"
  pending :: "pending_record list"
  at_bottom :: bool
  id_counter :: nat
  blocks :: "event_block list"

text \<open>The state the constructor of \<open>TimelineView\<close> leaves.\<close>

definition TimelineView :: timeline_view where
  "TimelineView = \<lparr> batches = [], pending = [], at_bottom = False, id_counter = 0, blocks = [] \<rparr>"

definition get_id :: "timeline_view \<Rightarrow> nat \<times> timeline_view" where
  "get_id s = (id_counter s, s\<lparr> id_counter := id_counter s + 1 \<rparr>)"

text \<open>
  The loops of \<open>rebuild_blocks\<close> carry \<open>new_blocks\<close> and the run buffer
  \<open>block_events\<close>; \<open>rebuild_step\<close> is the body of the inner loop.
\<close>

type_synonym rebuild_acc = "event_block list \<times> event_like list"

definition rebuild_step :: "renderer \<Rightarrow> rebuild_acc \<Rightarrow> event_like \<Rightarrow> error + rebuild_acc" where
  "rebuild_step R acc event =
     (case acc of
        (new_blocks, block_events) \<Rightarrow>
          if block_events \<noteq> [] \<and> block_border (last block_events) event then
            (case EventBlock R block_events of
               Inl x \<Rightarrow> Inl x
             | Inr b \<Rightarrow> Inr (new_blocks @ [b], [event]))
          else Inr (new_blocks, block_events @ [event]))"

fun rebuild_events :: "renderer \<Rightarrow> rebuild_acc \<Rightarrow> event_like list \<Rightarrow> error + rebuild_acc" where
  "rebuild_events R acc [] = Inr acc"
| "rebuild_events R acc (event # rest) =
     (case rebuild_step R acc event of
        Inl x \<Rightarrow> Inl x
      | Inr acc' \<Rightarrow> rebuild_events R acc' rest)"

fun rebuild_batches :: "renderer \<Rightarrow> rebuild_acc \<Rightarrow> batch list \<Rightarrow> error + rebuild_acc" where
  "rebuild_batches R acc [] = Inr acc"
| "rebuild_batches R acc (b # rest) =
     (case rebuild_events R acc (b_events b) of
        Inl x \<Rightarrow> Inl x
      | Inr acc' \<Rightarrow> rebuild_batches R acc' rest)"

definition rebuild_blocks :: "renderer \<Rightarrow> timeline_view \<Rightarrow> error + timeline_view" where
  "rebuild_blocks R s =
     (case rebuild_batches R ([], []) (batches s) of
        Inl x \<Rightarrow> Inl x
      | Inr acc \<Rightarrow>
          (case (if at_bottom s then rebuild_events R acc (map p_event (pending s))
                 else Inr acc) of
             Inl x \<Rightarrow> Inl x
           | Inr (new_blocks, block_events) \<Rightarrow>
               if block_events \<noteq> [] then
                 (case EventBlock R block_events of
                    Inl x \<Rightarrow> Inl x
                  | Inr b \<Rightarrow> Inr (s\<lparr> blocks := new_blocks @ [b] \<rparr>))
               else Inr (s\<lparr> blocks := new_blocks \<rparr>)))"

subsection \<open>Ingestion\<close>

definition prepend ::
  "renderer \<Rightarrow> string \<Rightarrow> room_state \<Rightarrow> room_event \<Rightarrow> timeline_view \<Rightarrow> error + timeline_view" where
  "prepend R begin state evt s =
     (case get_id s of
        (i, s1) \<Rightarrow>
          (let new = EventLike_real i state evt;
               bs = (case batches s1 of
                       [] \<Rightarrow> [\<lparr> b_begin = begin, b_events = [new] \<rparr>]
                     | b # rest \<Rightarrow>
                         if b_begin b = begin then b\<lparr> b_events := new # b_events b \<rparr> # rest
                         else \<lparr> b_begin = begin, b_events = [new] \<rparr> # b # rest);
               ps = (case re_unsigned_data evt of
                       None \<Rightarrow> pending s1
                     | Some u \<Rightarrow>
                         (case transaction_id u of
                            None \<Rightarrow> pending s1
                          | Some txid \<Rightarrow> filter (\<lambda>p. p_transaction p \<noteq> txid) (pending s1)))
           in rebuild_blocks R (s1\<lparr> batches := bs, pending := ps \<rparr>)))"

text \<open>
  The search loop of \<open>append\<close>: the position of the first pending record with the
  transaction, or the length of the queue (\<open>cend()\<close>) when there is none.
\<close>

fun find_transaction :: "string \<Rightarrow> pending_record list \<Rightarrow> nat" where
  "find_transaction txid [] = 0"
| "find_transaction txid (p # ps) =
     (if p_transaction p = txid then 0 else Suc (find_transaction txid ps))"

text \<open>\<open>pending_.erase(it)\<close> for an iterator inside the queue.\<close>

definition erase :: "nat \<Rightarrow> 'a list \<Rightarrow> 'a list" where
  "erase it xs = take it xs @ drop (Suc it) xs"

text \<open>
  After the loop \<open>append\<close> reads \<open>it->event.id\<close> and erases \<open>it\<close> without comparing
  \<open>it\<close> with \<open>pending_.cend()\<close>.
\<close>

definition append ::
  "renderer \<Rightarrow> string \<Rightarrow> room_state \<Rightarrow> room_event \<Rightarrow> timeline_view \<Rightarrow> error + timeline_view" where
  "append R begin state evt s =
     (case (case re_unsigned_data evt of
              None \<Rightarrow> Inr (None, pending s)
            | Some u \<Rightarrow>
                (case transaction_id u of
                   None \<Rightarrow> Inr (None, pending s)
                 | Some txid \<Rightarrow>
                     (let it = find_transaction txid (pending s)
                      in if it < length (pending s)
                         then Inr (Some (ev_id (p_event (pending s ! it))), erase it (pending s))
                         else Inl end_iterator_dereferenced))) of
        Inl x \<Rightarrow> Inl x
      | Inr (existing_id, ps) \<Rightarrow>
          (case (case existing_id of
                   Some i \<Rightarrow> (i, s)
                 | None \<Rightarrow> get_id s) of
             (i, s1) \<Rightarrow>
               (let new = EventLike_real i state evt;
                    bs = (if batches s1 \<noteq> [] \<and> b_begin (last (batches s1)) = begin
                          then butlast (batches s1)
                               @ [(last (batches s1))
                                    \<lparr> b_events := b_events (last (batches s1)) @ [new] \<rparr>]
                          else batches s1 @ [\<lparr> b_begin = begin, b_events = [new] \<rparr>])
                in rebuild_blocks R (s1\<lparr> batches := bs, pending := ps \<rparr>))))"

definition add_pending ::
  "renderer \<Rightarrow> string \<Rightarrow> room_state \<Rightarrow> string \<Rightarrow> int \<Rightarrow> string \<Rightarrow> content \<Rightarrow> string option
   \<Rightarrow> timeline_view \<Rightarrow> error + timeline_view" where
  "add_pending R transaction state self t ty c affected_user s =
     (case get_id s of
        (i, s1) \<Rightarrow>
          rebuild_blocks R
            (s1\<lparr> pending :=
                   pending s1
                   @ [\<lparr> p_transaction = transaction,
                        p_event = EventLike i state self t ty c affected_user None \<rparr>] \<rparr>))"

definition set_at_bottom :: "bool \<Rightarrow> timeline_view \<Rightarrow> timeline_view" where
  "set_at_bottom v s = s\<lparr> at_bottom := v \<rparr>"

subsection \<open>Redaction dispatch\<close>

text \<open>
  The inner loop of \<open>TimelineView::redact\<close> over the events of a batch; the flag is
  \<open>done\<close>. The comparison dereferences the record's confirmed source.
\<close>

fun redact_events ::
  "(content \<Rightarrow> content) \<Rightarrow> redaction \<Rightarrow> event_like list \<Rightarrow> error + (event_like list \<times> bool)" where
  "redact_events rf r [] = Inr ([], False)"
| "redact_events rf r (e # es) =
     (case ev_event e of
        None \<Rightarrow> Inl empty_optional_dereferenced
      | Some ev \<Rightarrow>
          if re_id ev = rd_redacts r then
            (case EventLike_redact rf r e of
               (e', Some x) \<Rightarrow> Inl x
             | (e', None) \<Rightarrow> Inr (e' # es, True))
          else
            (case redact_events rf r es of
               Inl x \<Rightarrow> Inl x
             | Inr (es', done) \<Rightarrow> Inr (e # es', done)))"

fun redact_batches ::
  "(content \<Rightarrow> content) \<Rightarrow> redaction \<Rightarrow> batch list \<Rightarrow> error + batch list" where
  "redact_batches rf r [] = Inr []"
| "redact_batches rf r (b # bs) =
     (case redact_events rf r (b_events b) of
        Inl x \<Rightarrow> Inl x
      | Inr (es', done) \<Rightarrow>
          if done then Inr (b\<lparr> b_events := es' \<rparr> # bs)
          else
            (case redact_batches rf r bs of
               Inl x \<Rightarrow> Inl x
             | Inr bs' \<Rightarrow> Inr (b\<lparr> b_events := es' \<rparr> # bs')))"

definition redact ::
  "renderer \<Rightarrow> (content \<Rightarrow> content) \<Rightarrow> redaction \<Rightarrow> timeline_view \<Rightarrow> error + timeline_view" where
  "redact R rf r s =
     (case redact_batches rf r (batches s) of
        Inl x \<Rightarrow> Inl x
      | Inr bs \<Rightarrow> rebuild_blocks R (s\<lparr> batches := bs \<rparr>))"

subsection \<open>Selection traversal\<close>

text \<open>
  \<open>EventBlock::draw\<close> resolves the selection for every region of a block, from the
  bottom up: the paragraphs of the events in reverse, then the timestamp, then the name,
  threading \<open>bottom_selected\<close>. What it hands to the painter is recorded per region as a
  \<open>drawn\<close>: the region and the highlight, if any.
\<close>

record drawn =
  d_event :: nat
  d_type :: cursor_type
  d_paragraph :: nat
  d_selection :: "text_range option"

definition next_selected :: "bool \<Rightarrow> selection_result option \<Rightarrow> bool" where
  "next_selected bottom_selected s = (case s of None \<Rightarrow> bottom_selected | Some r \<Rightarrow> continues r)"

fun draw_paragraphs ::
  "nat \<Rightarrow> selection \<Rightarrow> (nat \<times> layout) list \<Rightarrow> bool \<Rightarrow> drawn list \<times> bool" where
  "draw_paragraphs i sel [] bottom_selected = ([], bottom_selected)"
| "draw_paragraphs i sel ((index, paragraph) # rest) bottom_selected =
     (let s = selection_for i BODY paragraph bottom_selected sel index
      in case draw_paragraphs i sel rest (next_selected bottom_selected s) of
           (ds, out) \<Rightarrow>
             (\<lparr> d_event = i, d_type = BODY, d_paragraph = index,
                d_selection = map_option affected s \<rparr> # ds, out))"

fun draw_events :: "selection \<Rightarrow> block_event list \<Rightarrow> bool \<Rightarrow> drawn list \<times> bool" where
  "draw_events sel [] bottom_selected = ([], bottom_selected)"
| "draw_events sel (event # rest) bottom_selected =
     (case draw_paragraphs (be_id event) sel
             (rev (zip [0..<length (be_paragraphs event)] (be_paragraphs event)))
             bottom_selected of
        (ds, b1) \<Rightarrow>
          (case draw_events sel rest b1 of
             (ds', out) \<Rightarrow> (ds @ ds', out)))"

definition draw :: "event_block \<Rightarrow> bool \<Rightarrow> selection \<Rightarrow> error + (drawn list \<times> bool)" where
  "draw b bottom_selected sel =
     (case draw_events sel (rev (eb_events b)) bottom_selected of
        (ds, b1) \<Rightarrow>
          (case eb_events b of
             [] \<Rightarrow> Inl front_of_empty_container
           | front # _ \<Rightarrow>
               (let s1 = selection_for (be_id front) TIMESTAMP (eb_timestamp b) b1 sel 0;
                    b2 = next_selected b1 s1;
                    s2 = selection_for (be_id front) NAME (eb_name b) b2 sel 0;
                    b3 = next_selected b2 s2
                in Inr (ds @ [\<lparr> d_event = be_id front, d_type = TIMESTAMP, d_paragraph = 0,
                                 d_selection = map_option affected s1 \<rparr>,
                               \<lparr> d_event = be_id front, d_type = NAME, d_paragraph = 0,
                                 d_selection = map_option affected s2 \<rparr>], b3))))"

text \<open>
  The loop of \<open>TimelineView::paintEvent\<close> over the blocks it draws, newest first (the
  part of \<open>blocks_\<close>, reversed, that lies in the viewport); \<open>selecting\<close> starts as
  \<open>false\<close>.
\<close>

fun paint_blocks :: "selection \<Rightarrow> event_block list \<Rightarrow> bool \<Rightarrow> error + (drawn list \<times> bool)" where
  "paint_blocks sel [] selecting = Inr ([], selecting)"
| "paint_blocks sel (block # rest) selecting =
     (case draw block selecting sel of
        Inl x \<Rightarrow> Inl x
      | Inr (ds, selecting') \<Rightarrow>
          (case paint_blocks sel rest selecting' of
             Inl x \<Rightarrow> Inl x
           | Inr (ds', out) \<Rightarrow> Inr (ds @ ds', out)))"

subsection \<open>Notions used to state the properties\<close>

text \<open>
  A selection in \<open>CHARACTER\<close> mode whose cursors lie in one region, at offsets that are
  not negative and are values of a 32-bit \<open>int\<close>.
\<close>

definition contained_selection :: "selection \<Rightarrow> bool" where
  "contained_selection sel \<longleftrightarrow>
     s_mode sel = CHARACTER \<and> c_event (s_begin sel) = c_event (s_end sel)
     \<and> c_type (s_begin sel) = c_type (s_end sel)
     \<and> c_paragraph (s_begin sel) = c_paragraph (s_end sel)
     \<and> 0 \<le> c_pos (s_begin sel) \<and> c_pos (s_begin sel) \<le> 2147483647
     \<and> 0 \<le> c_pos (s_end sel) \<and> c_pos (s_end sel) \<le> 2147483647"

text \<open>
  What the traversal should report for a region when both cursors of the selection lie in
  one region: the highlight between the two offsets for that region, nothing elsewhere.
\<close>

definition contained_highlight :: "selection \<Rightarrow> drawn \<Rightarrow> bool" where
  "contained_highlight sel d \<longleftrightarrow>
     d_selection d =
       (if d_event d = c_event (s_begin sel) \<and> d_type d = c_type (s_begin sel)
           \<and> d_paragraph d = c_paragraph (s_begin sel)
        then Some \<lparr> r_start = min (c_pos (s_begin sel)) (c_pos (s_end sel)),
                    r_length = \<bar>c_pos (s_begin sel) - c_pos (s_end sel)\<bar> \<rparr>
        else None)"

text \<open>The confirmed records in chronological order, and all records of the view.\<close>

definition confirmed_events :: "timeline_view \<Rightarrow> event_like list" where
  "confirmed_events s = concat (map b_events (batches s))"

definition all_records :: "timeline_view \<Rightarrow> event_like list" where
  "all_records s = confirmed_events s @ map p_event (pending s)"

text \<open>The sequence a rebuild walks: the pending records only at the live edge.\<close>

definition event_sequence :: "timeline_view \<Rightarrow> event_like list" where
  "event_sequence s =
     confirmed_events s @ (if at_bottom s then map p_event (pending s) else [])"

text \<open>
  The position of the run that holds the \<open>k\<close>-th element, for consecutive runs of the
  given lengths; the block that holds the \<open>k\<close>-th event of the sequence.
\<close>

fun run_index :: "nat list \<Rightarrow> nat \<Rightarrow> nat" where
  "run_index [] k = 0"
| "run_index (n # ns) k = (if k < n then 0 else Suc (run_index ns (k - n)))"


text \<open>
  The runs the loops of \<open>rebuild_blocks\<close> close, as lists of events: \<open>buf\<close> is the run
  buffer. A run is uniform when all its events have a time or it has at most one event.
\<close>

fun split_runs :: "event_like list \<Rightarrow> event_like list \<Rightarrow> event_like list list" where
  "split_runs buf [] = (if buf = [] then [] else [buf])"
| "split_runs buf (e # es) =
     (if buf \<noteq> [] \<and> block_border (last buf) e then buf # split_runs [e] es
      else split_runs (buf @ [e]) es)"

definition uniform_run :: "event_like list \<Rightarrow> bool" where
  "uniform_run es \<longleftrightarrow> list_all (\<lambda>e. ev_time e \<noteq> None) es \<or> length es \<le> 1"



text \<open>
  The characters of a region's text that a range covers: the positions inside the text
  from the start of the range up to its start plus its length.
\<close>

definition highlighted :: "layout \<Rightarrow> text_range \<Rightarrow> nat list" where
  "highlighted l r =
     filter (\<lambda>i. r_start r \<le> int i \<and> int i < r_start r + r_length r) [0..<length (l_text l)]"

text \<open>The first pending record with a transaction token.\<close>

definition first_pending :: "string \<Rightarrow> pending_record list \<Rightarrow> pending_record option" where
  "first_pending txid ps = find (\<lambda>p. p_transaction p = txid) ps"

definition event_transaction :: "room_event \<Rightarrow> string option" where
  "event_transaction evt =
     (case re_unsigned_data evt of None \<Rightarrow> None | Some u \<Rightarrow> transaction_id u)"

text \<open>Every record of the batches carries its confirmed source.\<close>

definition batches_confirmed :: "timeline_view \<Rightarrow> bool" where
  "batches_confirmed s \<longleftrightarrow> list_all (\<lambda>e. ev_event e \<noteq> None) (confirmed_events s)"

text \<open>
  The invariant of the view: the batches hold confirmed records, and the identifiers of
  all records are distinct and below the counter.
\<close>

definition view_invariant :: "timeline_view \<Rightarrow> bool" where
  "view_invariant s \<longleftrightarrow>
     batches_confirmed s \<and> distinct (map ev_id (all_records s))
     \<and> list_all (\<lambda>e. ev_id e < id_counter s) (all_records s)"

definition source_id :: "event_like \<Rightarrow> string option" where
  "source_id e = map_option re_id (ev_event e)"

text \<open>
  What a redaction should do to the confirmed records in chronological order: the first
  record whose source has the target's identifier is redacted, no other record changes.
\<close>

fun redact_first :: "(content \<Rightarrow> content) \<Rightarrow> redaction \<Rightarrow> event_like list \<Rightarrow> event_like list" where
  "redact_first rf r [] = []"
| "redact_first rf r (e # es) =
     (if source_id e = Some (rd_redacts r) then fst (EventLike_redact rf r e) # es
      else e # redact_first rf r es)"

text \<open>
  A stand-in for the text layout engine on plain text, for concrete evaluations: words
  are separated by spaces, \<open>nextCursorPosition\<close> moves to the start of the next word (or
  the end of the text), \<open>previousCursorPosition\<close> to the nearest word start before the
  position; positions outside the text are returned as they are.
\<close>

definition is_word_start :: "string \<Rightarrow> nat \<Rightarrow> bool" where
  "is_word_start t i \<longleftrightarrow>
     i < length t \<and> t ! i \<noteq> CHR '' '' \<and> (i = 0 \<or> t ! (i - 1) = CHR '' '')"

definition next_word :: "string \<Rightarrow> int \<Rightarrow> int" where
  "next_word t p =
     (if p < 0 \<or> int (length t) \<le> p then p
      else (case filter (\<lambda>i. is_word_start t i \<and> p < int i) [0..<length t] of
              [] \<Rightarrow> int (length t)
            | i # _ \<Rightarrow> int i))"

definition previous_word :: "string \<Rightarrow> int \<Rightarrow> int" where
  "previous_word t p =
     (if p \<le> 0 \<or> int (length t) < p then p
      else (case filter (\<lambda>i. is_word_start t i \<and> int i < p) (rev [0..<length t]) of
              [] \<Rightarrow> 0
            | i # _ \<Rightarrow> int i))"

definition plain_layout :: "string \<Rightarrow> layout" where
  "plain_layout t =
     \<lparr> l_text = t, nextCursorPosition = next_word t, previousCursorPosition = previous_word t \<rparr>"

definition plain_renderer :: renderer where
  "plain_renderer =
     \<lparr> rn_name = (\<lambda>e. plain_layout (ev_sender e)),
       rn_timestamp = (\<lambda>ti. plain_layout (case ti of None \<Rightarrow> ''REDACTED'' | Some _ \<Rightarrow> ''00:00'')),
       rn_paragraphs = (\<lambda>name_text block_sender e. [plain_layout ''text'']) \<rparr>"

subsection \<open>Concrete inputs\<close>

definition no_members :: room_state where
  "no_members = \<lparr> member_from_id = (\<lambda>u. None), member_disambiguation = (\<lambda>u. None) \<rparr>"

definition hi_content :: content where
  "hi_content = [(''msgtype'', JString ''m.text''), (''body'', JString ''hi'')]"

text \<open>A text message with event identifier, sender, timestamp and transaction token.\<close>

definition message_event :: "string \<Rightarrow> string \<Rightarrow> 64 word \<Rightarrow> string option \<Rightarrow> room_event" where
  "message_event i sender ts txid =
     \<lparr> re_id = i, re_sender = sender, re_origin_server_ts = ts, re_type = ''m.room.message'',
       re_content = hi_content,
       re_state_key = [], re_redacts = [],
       re_unsigned_data = Some \<lparr> transaction_id = txid \<rparr> \<rparr>"

text \<open>A redacted form that keeps no key of the content.\<close>

definition empty_form :: "content \<Rightarrow> content" where
  "empty_form c = []"

definition body_cursor :: "nat \<Rightarrow> nat \<Rightarrow> int \<Rightarrow> cursor" where
  "body_cursor i paragraph pos =
     \<lparr> c_type = BODY, c_event = i, c_paragraph = paragraph, c_pos = pos \<rparr>"

text \<open>
  A block of two events of Alice; the first event has two paragraphs.
\<close>

definition example_block :: event_block where
  "example_block =
     \<lparr> eb_sender = ''@alice:hs'', eb_time = Some \<lparr> ti_start = 0, ti_end = 60000 \<rparr>,
       eb_name = plain_layout ''alice'', eb_timestamp = plain_layout ''00:00'',
       eb_events =
         [\<lparr> be_id = 0, be_time = Some 0, be_source = None,
            be_paragraphs = [plain_layout ''hello world'', plain_layout ''second line''] \<rparr>,
          \<lparr> be_id = 1, be_time = Some 60000, be_source = None,
            be_paragraphs = [plain_layout ''aa bbb''] \<rparr>] \<rparr>"

text \<open>
  A view at the live edge: one batch with two messages of Alice a minute apart and one of
  Bob, and one pending message of Alice with transaction token \<open>x1\<close>.
\<close>

definition example_view :: timeline_view where
  "example_view =
     \<lparr> batches =
         [\<lparr> b_begin = ''t0'',
            b_events =
              [EventLike_real 0 no_members (message_event ''$a'' ''@alice:hs'' 0 None),
               EventLike_real 1 no_members (message_event ''$b'' ''@alice:hs'' 60000 None),
               EventLike_real 2 no_members (message_event ''$c'' ''@bob:hs'' 120000 None)] \<rparr>],
       pending =
         [\<lparr> p_transaction = ''x1'',
            p_event = EventLike 3 no_members ''@alice:hs'' 180000 ''m.room.message'' hi_content
                        None None \<rparr>],
       at_bottom = True, id_counter = 4, blocks = [] \<rparr>"


section \<open>The block partitioner\<close>

lemma int64_small:
  "- 9223372036854775808 \<le> x \<Longrightarrow> x < 9223372036854775808 \<Longrightarrow> int64 x = x"
  unfolding int64_def by (simp add: sint_sbintrunc' signed_take_bit_int_eq_self)

lemma int32_small: "- 2147483648 \<le> x \<Longrightarrow> x < 2147483648 \<Longrightarrow> int32 x = x"
  unfolding int32_def by (simp add: sint_sbintrunc' signed_take_bit_int_eq_self)


subsection \<open>The loops of the rebuild never fail\<close>

lemma EventBlock_Inr:
  assumes "es \<noteq> []" "uniform_run es"
  shows "\<exists>b. EventBlock R es = Inr b"
proof -
  obtain front rest where es: "es = front # rest" using assms(1) by (cases es) auto
  show ?thesis
  proof (cases "ev_time front")
    case None
    then show ?thesis by (simp add: EventBlock_def es)
  next
    case (Some t0)
    have "ev_time (last es) \<noteq> None"
    proof (cases rest)
      case Nil then show ?thesis using Some es by simp
    next
      case (Cons a as)
      then have "list_all (\<lambda>e. ev_time e \<noteq> None) es" using assms(2) es by (simp add: uniform_run_def)
      moreover have "last es \<in> set es" using assms(1) by simp
      ultimately show ?thesis unfolding list_all_iff by blast
    qed
    then obtain t1 where "ev_time (last es) = Some t1" by auto
    then show ?thesis using Some es by (simp add: EventBlock_def)
  qed
qed

lemma EventBlock_fields:
  assumes "EventBlock R es = Inr b"
  shows "es \<noteq> []"
    and "eb_sender b = ev_sender (hd es)"
    and "map be_id (eb_events b) = map ev_id es"
    and "map be_time (eb_events b) = map ev_time es"
    and "map be_source (eb_events b) = map ev_event es"
    and "length (eb_events b) = length es"
    and "eb_time b = (case ev_time (hd es) of None \<Rightarrow> None
                      | Some t0 \<Rightarrow> Some \<lparr> ti_start = t0, ti_end = the (ev_time (last es)) \<rparr>)"
    and "ev_time (hd es) \<noteq> None \<Longrightarrow> ev_time (last es) \<noteq> None"
  using assms
  by (auto simp: EventBlock_def Event_def comp_def split: list.splits option.splits sum.splits)

lemma uniform_run_single: "uniform_run [e]"
  by (simp add: uniform_run_def)

lemma uniform_run_snoc:
  assumes "uniform_run buf" "buf \<noteq> []" "\<not> block_border (last buf) e"
  shows "uniform_run (buf @ [e])"
proof -
  have t: "ev_time (last buf) \<noteq> None" "ev_time e \<noteq> None"
    using assms(3) by (auto simp: block_border_def)
  have "list_all (\<lambda>e. ev_time e \<noteq> None) buf"
  proof (cases "length buf \<le> 1")
    case True
    then obtain x where "buf = [x]" using assms(2) by (cases buf) auto
    then show ?thesis using t by simp
  next
    case False
    then show ?thesis using assms(1) by (simp add: uniform_run_def)
  qed
  then show ?thesis using t by (simp add: uniform_run_def)
qed

lemma rebuild_events_append:
  "rebuild_events R acc (xs @ ys) =
     (case rebuild_events R acc xs of Inl x \<Rightarrow> Inl x | Inr acc' \<Rightarrow> rebuild_events R acc' ys)"
  by (induction xs arbitrary: acc) (auto split: sum.splits)

lemma rebuild_batches_concat:
  "rebuild_batches R acc bs = rebuild_events R acc (concat (map b_events bs))"
  by (induction bs arbitrary: acc) (auto simp: rebuild_events_append split: sum.splits)

lemma rebuild_events_runs:
  assumes "uniform_run buf"
  shows "\<exists>bs buf' closed.
           rebuild_events R (nb, buf) es = Inr (nb @ bs, buf') \<and> uniform_run buf'
           \<and> list_all2 (\<lambda>r b. EventBlock R r = Inr b) closed bs
           \<and> split_runs buf es = closed @ (if buf' = [] then [] else [buf'])"
  using assms
proof (induction es arbitrary: nb buf)
  case Nil
  then show ?case by simp
next
  case (Cons e es)
  show ?case
  proof (cases "buf \<noteq> [] \<and> block_border (last buf) e")
    case True
    then obtain b where b: "EventBlock R buf = Inr b"
      using EventBlock_Inr Cons.prems by blast
    obtain bs buf' closed where ih:
      "rebuild_events R (nb @ [b], [e]) es = Inr ((nb @ [b]) @ bs, buf')" "uniform_run buf'"
      "list_all2 (\<lambda>r b. EventBlock R r = Inr b) closed bs"
      "split_runs [e] es = closed @ (if buf' = [] then [] else [buf'])"
      using Cons.IH[OF uniform_run_single, of "nb @ [b]" e] by blast
    have "rebuild_events R (nb, buf) (e # es) = Inr (nb @ (b # bs), buf')"
      using True b ih(1) by (simp add: rebuild_step_def)
    moreover have "list_all2 (\<lambda>r b. EventBlock R r = Inr b) (buf # closed) (b # bs)"
      using b ih(3) by simp
    moreover have "split_runs buf (e # es) = (buf # closed) @ (if buf' = [] then [] else [buf'])"
      using True ih(4) by simp
    ultimately show ?thesis using ih(2) by blast
  next
    case False
    have u: "uniform_run (buf @ [e])"
    proof (cases "buf = []")
      case True then show ?thesis by (simp add: uniform_run_def)
    next
      case False': False
      then show ?thesis using False Cons.prems uniform_run_snoc by blast
    qed
    obtain bs buf' closed where ih:
      "rebuild_events R (nb, buf @ [e]) es = Inr (nb @ bs, buf')" "uniform_run buf'"
      "list_all2 (\<lambda>r b. EventBlock R r = Inr b) closed bs"
      "split_runs (buf @ [e]) es = closed @ (if buf' = [] then [] else [buf'])"
      using Cons.IH[OF u, of nb] by blast
    have "rebuild_events R (nb, buf) (e # es) = Inr (nb @ bs, buf')"
      using False ih(1) by (auto simp add: rebuild_step_def)
    moreover have "split_runs buf (e # es) = closed @ (if buf' = [] then [] else [buf'])"
      using False ih(4) by auto
    ultimately show ?thesis using ih(2,3) by blast
  qed
qed

lemma rebuild_blocks_eq:
  "rebuild_blocks R s =
     (case rebuild_events R ([], []) (event_sequence s) of
        Inl x \<Rightarrow> Inl x
      | Inr (new_blocks, block_events) \<Rightarrow>
          if block_events \<noteq> [] then
            (case EventBlock R block_events of
               Inl x \<Rightarrow> Inl x
             | Inr b \<Rightarrow> Inr (s\<lparr> blocks := new_blocks @ [b] \<rparr>))
          else Inr (s\<lparr> blocks := new_blocks \<rparr>))"
  by (auto simp: rebuild_blocks_def event_sequence_def confirmed_events_def rebuild_batches_concat
      rebuild_events_append split: sum.splits)

lemma rebuild_blocks_runs:
  "\<exists>bs. rebuild_blocks R s = Inr (s\<lparr> blocks := bs \<rparr>)
        \<and> list_all2 (\<lambda>r b. EventBlock R r = Inr b) (split_runs [] (event_sequence s)) bs"
proof -
  have u: "uniform_run []" by (simp add: uniform_run_def)
  obtain bs buf' closed where r:
    "rebuild_events R ([], []) (event_sequence s) = Inr ([] @ bs, buf')" "uniform_run buf'"
    "list_all2 (\<lambda>r b. EventBlock R r = Inr b) closed bs"
    "split_runs [] (event_sequence s) = closed @ (if buf' = [] then [] else [buf'])"
    using rebuild_events_runs[OF u, of R "[]" "event_sequence s"] by blast
  show ?thesis
  proof (cases "buf' = []")
    case True
    then show ?thesis using r by (auto simp: rebuild_blocks_eq intro!: exI[of _ bs])
  next
    case False
    then obtain b where b: "EventBlock R buf' = Inr b" using EventBlock_Inr r(2) by blast
    have "list_all2 (\<lambda>r b. EventBlock R r = Inr b) (closed @ [buf']) (bs @ [b])"
      using r(3) b by (simp add: list_all2_appendI)
    then show ?thesis using r False b by (auto simp: rebuild_blocks_eq intro!: exI[of _ "bs @ [b]"])
  qed
qed

subsection \<open>The runs and the boundary rule\<close>


lemma split_runs_nonempty: "r \<in> set (split_runs buf es) \<Longrightarrow> r \<noteq> []"
  by (induction es arbitrary: buf) (auto split: if_splits)

lemma split_runs_uniform:
  "uniform_run buf \<Longrightarrow> r \<in> set (split_runs buf es) \<Longrightarrow> uniform_run r"
proof (induction es arbitrary: buf)
  case Nil
  then show ?case by (auto split: if_splits)
next
  case (Cons e es)
  show ?case
  proof (cases "buf \<noteq> [] \<and> block_border (last buf) e")
    case True
    then have "r = buf \<or> r \<in> set (split_runs [e] es)" using Cons.prems(2) by auto
    then show ?thesis using Cons.prems(1) Cons.IH[OF uniform_run_single] by blast
  next
    case False
    have u: "uniform_run (buf @ [e])"
    proof (cases "buf = []")
      case True then show ?thesis by (simp add: uniform_run_def)
    next
      case False': False
      then show ?thesis using False Cons.prems(1) uniform_run_snoc by blast
    qed
    have "r \<in> set (split_runs (buf @ [e]) es)" using False Cons.prems(2) by auto
    then show ?thesis using Cons.IH[OF u] by blast
  qed
qed

lemma split_runs_head:
  "buf \<noteq> [] \<Longrightarrow> \<exists>r rs. split_runs buf es = r # rs \<and> length buf \<le> length r"
proof (induction es arbitrary: buf)
  case Nil
  then show ?case by simp
next
  case (Cons e es)
  show ?case
  proof (cases "block_border (last buf) e")
    case True
    then show ?thesis using Cons.prems by simp
  next
    case False
    obtain r rs where "split_runs (buf @ [e]) es = r # rs" "length (buf @ [e]) \<le> length r"
      using Cons.IH[of "buf @ [e]"] by auto
    then show ?thesis using False by auto
  qed
qed

lemma run_index_head:
  "buf \<noteq> [] \<Longrightarrow> k < length buf \<Longrightarrow> run_index (map length (split_runs buf es)) k = 0"
  using split_runs_head[of buf es] by auto






lemma example_fields:
  "ev_sender (EventLike_real i st (message_event x u ts tx)) = u"
  "ev_time (EventLike_real i st (message_event x u ts tx)) = Some (sint ts)"
  "ev_id (EventLike_real i st (message_event x u ts tx)) = i"
  "ev_event (EventLike_real i st (message_event x u ts tx)) = Some (message_event x u ts tx)"
  "ev_sender (EventLike i st u t ty c a r) = u"
  "ev_time (EventLike i st u t ty c a r) = Some t"
  "ev_id (EventLike i st u t ty c a r) = i"
  "ev_event (EventLike i st u t ty c a r) = None"
  by (simp_all add: EventLike_real_def EventLike_def message_event_def to_time_point_def)





subsection \<open>The time range of a block\<close>

lemma list_all2_memD2:
  "list_all2 P xs ys \<Longrightarrow> y \<in> set ys \<Longrightarrow> \<exists>x\<in>set xs. P x y"
  by (induction xs ys rule: list_all2_induct) auto

lemma EventBlock_times:
  assumes "EventBlock R r = Inr b" "uniform_run r"
  shows "eb_events b \<noteq> []"
    and "list_all (\<lambda>e. be_time e \<noteq> None) (eb_events b)
         \<or> (\<exists>e. eb_events b = [e] \<and> be_time e = None)"
    and "be_time (hd (eb_events b)) = Some t0 \<Longrightarrow>
         \<exists>t1. be_time (last (eb_events b)) = Some t1
              \<and> eb_time b = Some \<lparr> ti_start = t0, ti_end = t1 \<rparr>"
    and "be_time (hd (eb_events b)) = None \<Longrightarrow> eb_time b = None"
proof -
  have ne: "r \<noteq> []" using assms(1) by (rule EventBlock_fields(1))
  have ev: "eb_events b = map (Event R (l_text (rn_name R (hd r))) (ev_sender (hd r))) r"
    using assms(1) by (auto simp: EventBlock_def split: list.splits option.splits sum.splits)
  show "eb_events b \<noteq> []" using ne ev by simp
  have hd: "be_time (hd (eb_events b)) = ev_time (hd r)"
    using ne by (simp add: ev hd_map Event_def)
  have last: "be_time (last (eb_events b)) = ev_time (last r)"
    using ne by (simp add: ev last_map Event_def)
  show "list_all (\<lambda>e. be_time e \<noteq> None) (eb_events b)
         \<or> (\<exists>e. eb_events b = [e] \<and> be_time e = None)"
  proof (cases "list_all (\<lambda>e. ev_time e \<noteq> None) r")
    case True
    then show ?thesis by (simp add: ev list_all_iff Event_def)
  next
    case False
    then have "length r \<le> 1" using assms(2) by (simp add: uniform_run_def)
    then obtain e where "r = [e]" using ne by (cases r) auto
    then show ?thesis using False by (simp add: ev Event_def)
  qed
  show "\<exists>t1. be_time (last (eb_events b)) = Some t1
              \<and> eb_time b = Some \<lparr> ti_start = t0, ti_end = t1 \<rparr>"
    if "be_time (hd (eb_events b)) = Some t0"
  proof -
    have t0: "ev_time (hd r) = Some t0" using that hd by simp
    then obtain t1 where t1: "ev_time (last r) = Some t1"
      using EventBlock_fields(8)[OF assms(1)] by auto
    then show ?thesis using EventBlock_fields(7)[OF assms(1)] t0 last by simp
  qed
  show "eb_time b = None" if "be_time (hd (eb_events b)) = None"
    using EventBlock_fields(7)[OF assms(1)] that hd by simp
qed

text \<open>
  Claim C10. A rebuild never fails, and each of its blocks has at least one event; either
  all events of the block have a time, or the block has exactly one event, which has none.
  When the first event of a block has a time, so has the last, and the time range of the
  block is the pair of the two; when it has none, the block has no time range.
\<close>

theorem rebuild_blocks_block_times:
  "\<exists>s'. rebuild_blocks R s = Inr s'
        \<and> (\<forall>b\<in>set (blocks s').
              eb_events b \<noteq> []
              \<and> (list_all (\<lambda>e. be_time e \<noteq> None) (eb_events b)
                 \<or> (\<exists>e. eb_events b = [e] \<and> be_time e = None))
              \<and> (\<forall>t0. be_time (hd (eb_events b)) = Some t0 \<longrightarrow>
                    (\<exists>t1. be_time (last (eb_events b)) = Some t1
                          \<and> eb_time b = Some \<lparr> ti_start = t0, ti_end = t1 \<rparr>))
              \<and> (be_time (hd (eb_events b)) = None \<longrightarrow> eb_time b = None))"
proof -
  obtain bs where bs: "rebuild_blocks R s = Inr (s\<lparr> blocks := bs \<rparr>)"
    "list_all2 (\<lambda>r b. EventBlock R r = Inr b) (split_runs [] (event_sequence s)) bs"
    using rebuild_blocks_runs by blast
  have u: "uniform_run []" by (simp add: uniform_run_def)
  have "eb_events b \<noteq> []
        \<and> (list_all (\<lambda>e. be_time e \<noteq> None) (eb_events b)
           \<or> (\<exists>e. eb_events b = [e] \<and> be_time e = None))
        \<and> (\<forall>t0. be_time (hd (eb_events b)) = Some t0 \<longrightarrow>
              (\<exists>t1. be_time (last (eb_events b)) = Some t1
                    \<and> eb_time b = Some \<lparr> ti_start = t0, ti_end = t1 \<rparr>))
        \<and> (be_time (hd (eb_events b)) = None \<longrightarrow> eb_time b = None)"
    if bmem: "b \<in> set bs" for b
  proof -
    obtain r where r: "r \<in> set (split_runs [] (event_sequence s))" "EventBlock R r = Inr b"
      using list_all2_memD2[OF bs(2) bmem] by blast
    have "uniform_run r" using split_runs_uniform[OF u r(1)] .
    then show ?thesis using EventBlock_times[OF r(2)] by blast
  qed
  then show ?thesis using bs(1) by simp
qed

lemma example_rebuild:
  "\<exists>s'. rebuild_blocks plain_renderer example_view = Inr s'
     \<and> map (\<lambda>b. map be_id (eb_events b)) (blocks s') = [[0, 1], [2], [3]]
     \<and> map eb_time (blocks s')
         = [Some \<lparr> ti_start = 0, ti_end = 60000 \<rparr>, Some \<lparr> ti_start = 120000, ti_end = 120000 \<rparr>,
            Some \<lparr> ti_start = 180000, ti_end = 180000 \<rparr>]"
  by (simp add: rebuild_blocks_def example_view_def rebuild_step_def example_fields
      block_border_def BLOCK_MERGE_INTERVAL_def EventBlock_def Event_def int64_small)

theorem rebuild_blocks_block_times_witness:
  "\<exists>s'. rebuild_blocks plain_renderer example_view = Inr s'
        \<and> length (blocks s') = 3
        \<and> (\<forall>b\<in>set (blocks s').
              eb_events b \<noteq> []
              \<and> (list_all (\<lambda>e. be_time e \<noteq> None) (eb_events b)
                 \<or> (\<exists>e. eb_events b = [e] \<and> be_time e = None))
              \<and> (\<forall>t0. be_time (hd (eb_events b)) = Some t0 \<longrightarrow>
                    (\<exists>t1. be_time (last (eb_events b)) = Some t1
                          \<and> eb_time b = Some \<lparr> ti_start = t0, ti_end = t1 \<rparr>))
              \<and> (be_time (hd (eb_events b)) = None \<longrightarrow> eb_time b = None))"
proof -
  obtain s' where s': "rebuild_blocks plain_renderer example_view = Inr s'"
    "map eb_time (blocks s')
         = [Some \<lparr> ti_start = 0, ti_end = 60000 \<rparr>, Some \<lparr> ti_start = 120000, ti_end = 120000 \<rparr>,
            Some \<lparr> ti_start = 180000, ti_end = 180000 \<rparr>]"
    using example_rebuild by (elim exE conjE)
  have "length (map eb_time (blocks s')) = 3" by (simp only: s'(2)) simp
  then have "length (blocks s') = 3" by simp
  then show ?thesis
    using rebuild_blocks_block_times[of plain_renderer example_view] s'(1) by auto
qed

section \<open>The event stream\<close>

subsection \<open>Appending a confirmed event\<close>

lemma rebuild_blocks_Inr: "\<exists>bs. rebuild_blocks R s = Inr (s\<lparr> blocks := bs \<rparr>)"
  using rebuild_blocks_runs by blast

lemma find_transaction_none:
  "first_pending txid ps = None \<Longrightarrow> find_transaction txid ps = length ps"
  by (induction ps) (auto simp: first_pending_def split: if_splits)

lemma find_transaction_first:
  "first_pending txid ps = Some p \<Longrightarrow>
     find_transaction txid ps < length ps \<and> ps ! find_transaction txid ps = p
     \<and> erase (find_transaction txid ps) ps = remove1 p ps \<and> p_transaction p = txid"
proof (induction ps)
  case Nil
  then show ?case by (simp add: first_pending_def)
next
  case (Cons a ps)
  show ?case
  proof (cases "p_transaction a = txid")
    case True
    then show ?thesis using Cons.prems by (simp add: first_pending_def erase_def)
  next
    case False
    then have "first_pending txid ps = Some p" using Cons.prems by (simp add: first_pending_def)
    then have ih: "find_transaction txid ps < length ps" "ps ! find_transaction txid ps = p"
      "erase (find_transaction txid ps) ps = remove1 p ps" "p_transaction p = txid"
      using Cons.IH by auto
    have "a \<noteq> p" using False ih(4) by auto
    then show ?thesis using False ih by (simp add: erase_def)
  qed
qed

lemma append_unmatched:
  assumes "event_transaction evt = Some txid" "first_pending txid (pending s) = None"
  shows "append R begin state evt s = Inl end_iterator_dereferenced"
proof -
  obtain u where u: "re_unsigned_data evt = Some u" "transaction_id u = Some txid"
    using assms(1) by (auto simp: event_transaction_def split: option.splits)
  show ?thesis
    unfolding append_def by (simp add: u find_transaction_none[OF assms(2)])
qed

lemma confirmed_events_push_back:
  "concat (map b_events
     (if bs \<noteq> [] \<and> b_begin (last bs) = begin
      then butlast bs @ [(last bs)\<lparr> b_events := b_events (last bs) @ [new] \<rparr>]
      else bs @ [\<lparr> b_begin = begin, b_events = [new] \<rparr>]))
   = concat (map b_events bs) @ [new]"
proof (cases "bs \<noteq> [] \<and> b_begin (last bs) = begin")
  case True
  have "concat (map b_events (butlast bs @ [last bs]))
          = concat (map b_events (butlast bs)) @ b_events (last bs)"
    by simp
  then have "concat (map b_events bs)
             = concat (map b_events (butlast bs)) @ b_events (last bs)"
    using True by simp
  then show ?thesis using True by simp
next
  case False
  then show ?thesis by auto
qed

lemma append_matched:
  assumes "event_transaction evt = Some txid" "first_pending txid (pending s) = Some p"
  shows "\<exists>s'. append R begin state evt s = Inr s'
           \<and> confirmed_events s'
               = confirmed_events s @ [EventLike_real (ev_id (p_event p)) state evt]
           \<and> pending s' = remove1 p (pending s)
           \<and> id_counter s' = id_counter s \<and> at_bottom s' = at_bottom s"
proof -
  define new where "new = EventLike_real (ev_id (p_event p)) state evt"
  define bs where
    "bs = (if batches s \<noteq> [] \<and> b_begin (last (batches s)) = begin
           then butlast (batches s)
                @ [(last (batches s))\<lparr> b_events := b_events (last (batches s)) @ [new] \<rparr>]
           else batches s @ [\<lparr> b_begin = begin, b_events = [new] \<rparr>])"
  define s1 where "s1 = s\<lparr> batches := bs, pending := remove1 p (pending s) \<rparr>"
  obtain u where u: "re_unsigned_data evt = Some u" "transaction_id u = Some txid"
    using assms(1) by (auto simp: event_transaction_def split: option.splits)
  have f: "find_transaction txid (pending s) < length (pending s)"
    "pending s ! find_transaction txid (pending s) = p"
    "erase (find_transaction txid (pending s)) (pending s) = remove1 p (pending s)"
    using find_transaction_first[OF assms(2)] by auto
  have app: "append R begin state evt s = rebuild_blocks R s1"
    unfolding append_def s1_def bs_def new_def by (simp add: u f Let_def)
  obtain bl where bl: "rebuild_blocks R s1 = Inr (s1\<lparr> blocks := bl \<rparr>)"
    using rebuild_blocks_Inr by blast
  have "concat (map b_events bs) = concat (map b_events (batches s)) @ [new]"
    unfolding bs_def by (rule confirmed_events_push_back)
  then have c: "confirmed_events (s1\<lparr> blocks := bl \<rparr>) = confirmed_events s @ [new]"
    by (simp add: confirmed_events_def s1_def)
  have "pending (s1\<lparr> blocks := bl \<rparr>) = remove1 p (pending s)"
    "id_counter (s1\<lparr> blocks := bl \<rparr>) = id_counter s"
    "at_bottom (s1\<lparr> blocks := bl \<rparr>) = at_bottom s"
    by (simp_all add: s1_def)
  then show ?thesis using app bl c unfolding new_def by metis
qed

lemma EventLike_real_fields:
  "ev_id (EventLike_real i st evt) = i"
  "ev_event (EventLike_real i st evt) = Some evt"
  by (simp_all add: EventLike_real_def EventLike_def)

text \<open>
  Claim C2. When the transaction token of the appended event is the token of a pending
  record, let \<open>p\<close> be the first such record, and let the identifiers of the records of
  the view be distinct. Then \<open>append\<close> succeeds; the new confirmed record comes last, has
  the identifier of \<open>p\<close> and the event as its source; \<open>p\<close> is removed from the pending
  queue; exactly one record of the view, and of the sequence a rebuild walks, has that
  identifier; no fresh identifier is used and the identifiers stay distinct.
\<close>

theorem append_reuses_pending_identifier:
  assumes "event_transaction evt = Some txid"
    and "first_pending txid (pending s) = Some p"
    and "distinct (map ev_id (all_records s))"
  shows "\<exists>s'. append R begin state evt s = Inr s'
           \<and> confirmed_events s'
               = confirmed_events s @ [EventLike_real (ev_id (p_event p)) state evt]
           \<and> ev_id (last (confirmed_events s')) = ev_id (p_event p)
           \<and> ev_event (last (confirmed_events s')) = Some evt
           \<and> pending s' = remove1 p (pending s)
           \<and> p \<notin> set (pending s')
           \<and> length (filter (\<lambda>e. ev_id e = ev_id (p_event p)) (all_records s')) = 1
           \<and> length (filter (\<lambda>e. ev_id e = ev_id (p_event p)) (event_sequence s')) = 1
           \<and> id_counter s' = id_counter s
           \<and> distinct (map ev_id (all_records s'))"
proof -
  let ?i = "ev_id (p_event p)"
  let ?new = "EventLike_real ?i state evt"
  obtain s' where s': "append R begin state evt s = Inr s'"
    "confirmed_events s' = confirmed_events s @ [?new]"
    "pending s' = remove1 p (pending s)" "id_counter s' = id_counter s"
    using append_matched[OF assms(1,2)] by blast
  have pin: "p \<in> set (pending s)"
    using assms(2) by (auto simp: first_pending_def find_Some_iff)
  have dc: "distinct (map ev_id (confirmed_events s))"
    and dp: "distinct (map ev_id (map p_event (pending s)))"
    and disj: "set (map ev_id (confirmed_events s)) \<inter> set (map ev_id (map p_event (pending s))) = {}"
    using assms(3) by (auto simp: all_records_def)
  have dpp: "distinct (pending s)" using dp by (simp add: distinct_map)
  have notin: "p \<notin> set (remove1 p (pending s))" using dpp by simp
  have inj: "inj_on (\<lambda>q. ev_id (p_event q)) (set (pending s))"
    using dp by (simp add: distinct_map comp_def inj_on_def)
  have c0: "\<forall>e\<in>set (confirmed_events s). ev_id e \<noteq> ?i"
    using disj pin by auto
  have p0: "\<forall>q\<in>set (remove1 p (pending s)). ev_id (p_event q) \<noteq> ?i"
  proof
    fix q assume q: "q \<in> set (remove1 p (pending s))"
    then have "q \<in> set (pending s)" "q \<noteq> p" using dpp by auto
    then show "ev_id (p_event q) \<noteq> ?i" using inj pin by (auto simp: inj_on_def)
  qed
  have fc: "filter (\<lambda>e. ev_id e = ?i) (confirmed_events s) = []"
    using c0 by (simp add: filter_empty_conv)
  have fp: "filter (\<lambda>e. ev_id e = ?i) (map p_event (remove1 p (pending s))) = []"
    using p0 by (simp add: filter_empty_conv)
  have cnt: "length (filter (\<lambda>e. ev_id e = ?i) (all_records s')) = 1"
    by (simp add: all_records_def s'(2,3) fc fp EventLike_real_fields)
  have cnt2: "length (filter (\<lambda>e. ev_id e = ?i) (event_sequence s')) = 1"
    by (simp add: event_sequence_def s'(2,3) fc fp EventLike_real_fields)
  have dp': "distinct (map ev_id (map p_event (remove1 p (pending s))))"
    using dp inj by (simp add: distinct_map comp_def inj_on_def distinct_remove1)
  have sub: "set (remove1 p (pending s)) \<subseteq> set (pending s)"
    by (rule set_remove1_subset)
  have disj': "\<forall>e\<in>set (confirmed_events s). \<forall>q\<in>set (remove1 p (pending s)).
                 ev_id e \<noteq> ev_id (p_event q)"
    using disj sub by auto
  have "distinct (map ev_id (all_records s'))"
    using dc dp' c0 p0 disj'
    by (auto simp: all_records_def s'(2,3) EventLike_real_fields)
  then show ?thesis
    using s' notin cnt cnt2 by (simp add: EventLike_real_fields)
qed


theorem append_reuses_pending_identifier_witness:
  "\<exists>s'. append plain_renderer ''t0'' no_members
          (message_event ''$d'' ''@alice:hs'' 180000 (Some ''x1'')) example_view = Inr s'
        \<and> map ev_id (confirmed_events s') = [0, 1, 2, 3]
        \<and> pending s' = []
        \<and> length (filter (\<lambda>e. ev_id e = 3) (all_records s')) = 1
        \<and> id_counter s' = 4"
proof -
  let ?evt = "message_event ''$d'' ''@alice:hs'' 180000 (Some ''x1'')"
  let ?p = "\<lparr> p_transaction = ''x1'',
             p_event = EventLike 3 no_members ''@alice:hs'' 180000 ''m.room.message'' hi_content
                         None None \<rparr>"
  have tx: "event_transaction ?evt = Some ''x1''"
    by (simp add: event_transaction_def message_event_def)
  have fp: "first_pending ''x1'' (pending example_view) = Some ?p"
    by (simp add: first_pending_def example_view_def)
  have d: "distinct (map ev_id (all_records example_view))"
    by (simp add: all_records_def confirmed_events_def example_view_def example_fields)
  have c: "map ev_id (confirmed_events example_view) = [0, 1, 2]"
    by (simp add: confirmed_events_def example_view_def example_fields)
  have pe: "pending example_view = [?p]" "id_counter example_view = 4"
    by (simp_all add: example_view_def)
  show ?thesis
    using append_reuses_pending_identifier[OF tx fp d, of plain_renderer "''t0''" no_members]
    by (auto simp: c pe example_fields EventLike_real_fields)
qed

text \<open>
  Claim C1, at a concrete input. The pending queue of \<open>example_view\<close> holds one record,
  with token \<open>x1\<close>; the queue of the initial view is empty. Appending a confirmed event
  whose token is \<open>x2\<close> finds no pending record, and \<open>append\<close> reads the identifier
  through the end iterator of the queue: no identifier is assigned and the call does not
  complete.
\<close>

theorem append_unmatched_token_reads_end_iterator:
  "append plain_renderer ''t0'' no_members
     (message_event ''$d'' ''@alice:hs'' 180000 (Some ''x2'')) example_view
     = Inl end_iterator_dereferenced
   \<and> append plain_renderer ''t0'' no_members
       (message_event ''$d'' ''@alice:hs'' 180000 (Some ''x2'')) TimelineView
     = Inl end_iterator_dereferenced"
proof -
  have tx: "event_transaction (message_event ''$d'' ''@alice:hs'' 180000 (Some ''x2'')) = Some ''x2''"
    by (simp add: event_transaction_def message_event_def)
  have "first_pending ''x2'' (pending example_view) = None"
    by (simp add: first_pending_def example_view_def)
  moreover have "first_pending ''x2'' (pending TimelineView) = None"
    by (simp add: first_pending_def TimelineView_def)
  ultimately show ?thesis using append_unmatched[OF tx] by simp
qed

section \<open>Redaction\<close>

subsection \<open>The redaction applicator\<close>

text \<open>
  Claim C8. Applied to a record with no confirmed source, \<open>EventLike::redact\<close> throws
  the logic error and the record is as before. Applied to a record with a confirmed
  source, it throws nothing, redacts the source, clears the time and replaces the content
  with the content of the redacted source, which is the redacted form of the source's
  content; the other fields stay as they are.
\<close>

theorem EventLike_redact_effect:
  "(ev_event e = None \<longrightarrow>
      EventLike_redact rf because e = (e, Some (logic_error ''tried to redact a fake event'')))
   \<and> (\<forall>src. ev_event e = Some src \<longrightarrow>
         (\<exists>e'. EventLike_redact rf because e = (e', None)
               \<and> ev_time e' = None
               \<and> ev_event e' = Some (Room_redact rf because src)
               \<and> ev_content e' = re_content (Room_redact rf because src)
               \<and> ev_content e' = rf (re_content src)
               \<and> e' = e\<lparr> ev_event := ev_event e', ev_time := None,
                         ev_content := ev_content e' \<rparr>))"
  by (simp add: EventLike_redact_def Room_redact_def Let_def)

theorem EventLike_redact_effect_witness:
  "EventLike_redact empty_form \<lparr> rd_redacts = ''$a'', rd_reason = None \<rparr>
     (EventLike 3 no_members ''@alice:hs'' 180000 ''m.room.message'' hi_content None None)
   = (EventLike 3 no_members ''@alice:hs'' 180000 ''m.room.message'' hi_content None None,
      Some (logic_error ''tried to redact a fake event''))
   \<and> (\<exists>e'. EventLike_redact empty_form \<lparr> rd_redacts = ''$a'', rd_reason = None \<rparr>
            (EventLike_real 0 no_members (message_event ''$a'' ''@alice:hs'' 0 None)) = (e', None)
          \<and> ev_time e' = None \<and> ev_content e' = [])"
  using EventLike_redact_effect[of
      "EventLike 3 no_members ''@alice:hs'' 180000 ''m.room.message'' hi_content None None"
      empty_form "\<lparr> rd_redacts = ''$a'', rd_reason = None \<rparr>"]
    EventLike_redact_effect[of
      "EventLike_real 0 no_members (message_event ''$a'' ''@alice:hs'' 0 None)"
      empty_form "\<lparr> rd_redacts = ''$a'', rd_reason = None \<rparr>"]
  by (auto simp: example_fields empty_form_def)

subsection \<open>Redaction dispatch\<close>

lemma EventLike_redact_confirmed:
  "ev_event e = Some src \<Longrightarrow>
     snd (EventLike_redact rf r e) = None
     \<and> source_id (fst (EventLike_redact rf r e)) = source_id e
     \<and> ev_event (fst (EventLike_redact rf r e)) \<noteq> None"
  by (simp add: EventLike_redact_def Room_redact_def Let_def source_id_def)

lemma redact_events_first:
  assumes "list_all (\<lambda>e. ev_event e \<noteq> None) es"
  shows "redact_events rf r es
         = Inr (redact_first rf r es, \<exists>e\<in>set es. source_id e = Some (rd_redacts r))"
  using assms
proof (induction es)
  case Nil
  then show ?case by simp
next
  case (Cons e es)
  then obtain src where src: "ev_event e = Some src" by auto
  have ih: "redact_events rf r es
            = Inr (redact_first rf r es, \<exists>e\<in>set es. source_id e = Some (rd_redacts r))"
    using Cons by simp
  show ?case
  proof (cases "re_id src = rd_redacts r")
    case True
    then have m: "source_id e = Some (rd_redacts r)" by (simp add: source_id_def src)
    obtain e' x where ex: "EventLike_redact rf r e = (e', x)" by (cases "EventLike_redact rf r e")
    then have "x = None" using EventLike_redact_confirmed[OF src, of rf r] by simp
    then show ?thesis using True m ex src by simp
  next
    case False
    then have m: "source_id e \<noteq> Some (rd_redacts r)" by (simp add: source_id_def src)
    then show ?thesis using False src ih by simp
  qed
qed

lemma redact_first_nomatch:
  "\<forall>e\<in>set es. source_id e \<noteq> Some (rd_redacts r) \<Longrightarrow> redact_first rf r es = es"
  by (induction es) auto

lemma redact_first_length: "length (redact_first rf r es) = length es"
  by (induction es) auto

lemma redact_first_append:
  "redact_first rf r (xs @ ys)
   = (if \<exists>e\<in>set xs. source_id e = Some (rd_redacts r) then redact_first rf r xs @ ys
      else xs @ redact_first rf r ys)"
  by (induction xs) auto

lemma redact_first_at:
  assumes "k < length es" "source_id (es ! k) = Some (rd_redacts r)"
    "\<forall>j<k. source_id (es ! j) \<noteq> Some (rd_redacts r)"
  shows "redact_first rf r es = es[k := fst (EventLike_redact rf r (es ! k))]"
  using assms
proof (induction es arbitrary: k)
  case Nil
  then show ?case by simp
next
  case (Cons e es)
  show ?case
  proof (cases k)
    case 0
    then show ?thesis using Cons.prems by simp
  next
    case (Suc k')
    have "\<forall>j<k'. source_id (es ! j) \<noteq> Some (rd_redacts r)"
    proof (intro allI impI)
      fix j assume "j < k'"
      then have "Suc j < k" using Suc by simp
      then show "source_id (es ! j) \<noteq> Some (rd_redacts r)"
        using Cons.prems(3)[rule_format, of "Suc j"] by simp
    qed
    moreover have "k' < length es" "source_id (es ! k') = Some (rd_redacts r)"
      using Cons.prems(1,2) Suc by simp_all
    ultimately have "redact_first rf r es = es[k' := fst (EventLike_redact rf r (es ! k'))]"
      using Cons.IH[of k'] by blast
    moreover have "source_id e \<noteq> Some (rd_redacts r)" using Cons.prems(3) Suc by auto
    ultimately show ?thesis using Suc by simp
  qed
qed

lemma redact_batches_first:
  assumes "list_all (\<lambda>e. ev_event e \<noteq> None) (concat (map b_events bs))"
  shows "\<exists>bs'. redact_batches rf r bs = Inr bs'
          \<and> concat (map b_events bs') = redact_first rf r (concat (map b_events bs))
          \<and> map b_begin bs' = map b_begin bs
          \<and> map (\<lambda>b. length (b_events b)) bs' = map (\<lambda>b. length (b_events b)) bs
          \<and> ((\<forall>e\<in>set (concat (map b_events bs)). source_id e \<noteq> Some (rd_redacts r))
               \<longrightarrow> bs' = bs)"
  using assms
proof (induction bs)
  case Nil
  then show ?case by simp
next
  case (Cons b bs)
  have cb: "list_all (\<lambda>e. ev_event e \<noteq> None) (b_events b)"
    and cbs: "list_all (\<lambda>e. ev_event e \<noteq> None) (concat (map b_events bs))"
    using Cons.prems by simp_all
  have ev: "redact_events rf r (b_events b)
            = Inr (redact_first rf r (b_events b),
                   \<exists>e\<in>set (b_events b). source_id e = Some (rd_redacts r))"
    using redact_events_first[OF cb] .
  show ?case
  proof (cases "\<exists>e\<in>set (b_events b). source_id e = Some (rd_redacts r)")
    case True
    then have "redact_batches rf r (b # bs)
               = Inr (b\<lparr> b_events := redact_first rf r (b_events b) \<rparr> # bs)"
      using ev by simp
    then show ?thesis using True by (auto simp: redact_first_append redact_first_length)
  next
    case False
    then have same: "redact_first rf r (b_events b) = b_events b"
      using redact_first_nomatch by blast
    obtain bs' where ih: "redact_batches rf r bs = Inr bs'"
      "concat (map b_events bs') = redact_first rf r (concat (map b_events bs))"
      "map b_begin bs' = map b_begin bs"
      "map (\<lambda>b. length (b_events b)) bs' = map (\<lambda>b. length (b_events b)) bs"
      "(\<forall>e\<in>set (concat (map b_events bs)). source_id e \<noteq> Some (rd_redacts r)) \<longrightarrow> bs' = bs"
      using Cons.IH[OF cbs] by blast
    have "redact_batches rf r (b # bs) = Inr (b # bs')"
      using ev False ih(1) same by simp
    then show ?thesis using False ih by (auto simp: redact_first_append)
  qed
qed

lemma redact_first_confirmed:
  "list_all (\<lambda>e. ev_event e \<noteq> None) es \<Longrightarrow>
   list_all (\<lambda>e. ev_event e \<noteq> None) (redact_first rf r es)"
proof (induction es)
  case Nil
  then show ?case by simp
next
  case (Cons e es)
  then obtain src where "ev_event e = Some src" by auto
  then show ?case using Cons EventLike_redact_confirmed[of e src rf r] by auto
qed

lemma rebuild_blocks_ignores_blocks:
  "rebuild_blocks R (s\<lparr> blocks := x \<rparr>) = rebuild_blocks R s"
  by (simp add: rebuild_blocks_def split: sum.splits prod.splits)

lemma redact_refines:
  assumes "batches_confirmed s"
  shows "\<exists>s'. redact R rf r s = Inr s'
          \<and> confirmed_events s' = redact_first rf r (confirmed_events s)
          \<and> map b_begin (batches s') = map b_begin (batches s)
          \<and> map (\<lambda>b. length (b_events b)) (batches s')
              = map (\<lambda>b. length (b_events b)) (batches s)
          \<and> ((\<forall>e\<in>set (confirmed_events s). source_id e \<noteq> Some (rd_redacts r))
               \<longrightarrow> batches s' = batches s)
          \<and> pending s' = pending s \<and> at_bottom s' = at_bottom s
          \<and> id_counter s' = id_counter s \<and> batches_confirmed s'"
proof -
  have c: "list_all (\<lambda>e. ev_event e \<noteq> None) (concat (map b_events (batches s)))"
    using assms by (simp add: batches_confirmed_def confirmed_events_def)
  obtain bs' where bs': "redact_batches rf r (batches s) = Inr bs'"
    "concat (map b_events bs') = redact_first rf r (concat (map b_events (batches s)))"
    "map b_begin bs' = map b_begin (batches s)"
    "map (\<lambda>b. length (b_events b)) bs' = map (\<lambda>b. length (b_events b)) (batches s)"
    "(\<forall>e\<in>set (concat (map b_events (batches s))). source_id e \<noteq> Some (rd_redacts r))
       \<longrightarrow> bs' = batches s"
    using redact_batches_first[OF c] by blast
  obtain bl where bl: "rebuild_blocks R (s\<lparr> batches := bs' \<rparr>) = Inr (s\<lparr> batches := bs', blocks := bl \<rparr>)"
    using rebuild_blocks_Inr[of R "s\<lparr> batches := bs' \<rparr>"] by auto
  have r: "redact R rf r s = Inr (s\<lparr> batches := bs', blocks := bl \<rparr>)"
    by (simp add: redact_def bs'(1) bl)
  have "batches_confirmed (s\<lparr> batches := bs', blocks := bl \<rparr>)"
    using redact_first_confirmed[OF c] by (simp add: batches_confirmed_def confirmed_events_def bs'(2))
  then show ?thesis
    using r bs'(2-5) by (simp add: confirmed_events_def)
qed

text \<open>
  Claim C7. In a view whose batches hold confirmed records, \<open>redact\<close> succeeds and
  changes neither the pending queue nor the shape of the batches. If no confirmed record
  has the target as the identifier of its source, the batches are as before. If the
  \<open>k\<close>-th confirmed record in chronological order is the first with the target, the
  confirmed records afterwards are the ones before with the \<open>k\<close>-th replaced by its
  redaction; all others, later records with the same target among them, are untouched.
\<close>

theorem redact_first_match_only:
  assumes "batches_confirmed s"
  shows "\<exists>s'. redact R rf r s = Inr s'
          \<and> pending s' = pending s
          \<and> map b_begin (batches s') = map b_begin (batches s)
          \<and> map (\<lambda>b. length (b_events b)) (batches s')
              = map (\<lambda>b. length (b_events b)) (batches s)
          \<and> ((\<forall>e\<in>set (confirmed_events s). source_id e \<noteq> Some (rd_redacts r))
               \<longrightarrow> batches s' = batches s)
          \<and> (\<forall>k. k < length (confirmed_events s)
                   \<and> source_id (confirmed_events s ! k) = Some (rd_redacts r)
                   \<and> (\<forall>j<k. source_id (confirmed_events s ! j) \<noteq> Some (rd_redacts r))
               \<longrightarrow> confirmed_events s'
                     = (confirmed_events s)
                         [k := fst (EventLike_redact rf r (confirmed_events s ! k))])"
proof -
  obtain s' where s': "redact R rf r s = Inr s'"
    "confirmed_events s' = redact_first rf r (confirmed_events s)"
    "map b_begin (batches s') = map b_begin (batches s)"
    "map (\<lambda>b. length (b_events b)) (batches s') = map (\<lambda>b. length (b_events b)) (batches s)"
    "(\<forall>e\<in>set (confirmed_events s). source_id e \<noteq> Some (rd_redacts r))
       \<longrightarrow> batches s' = batches s"
    "pending s' = pending s"
    using redact_refines[OF assms, of R rf r] by blast
  show ?thesis
    using s' redact_first_at[of _ "confirmed_events s" r rf] by (intro exI[of _ s']) simp
qed


lemma message_event_fields:
  "re_id (message_event i u ts tx) = i"
  "re_content (message_event i u ts tx) = hi_content"
  by (simp_all add: message_event_def)

lemma example_content:
  "ev_content (EventLike_real i st (message_event x u ts tx)) = hi_content"
  by (simp add: EventLike_real_def EventLike_def message_event_def)

lemma example_confirmed: "batches_confirmed example_view"
  by (simp add: batches_confirmed_def confirmed_events_def example_view_def example_fields)

lemma example_sources:
  "map source_id (confirmed_events example_view) = [Some ''$a'', Some ''$b'', Some ''$c'']"
  by (simp add: confirmed_events_def example_view_def source_id_def example_fields
      message_event_fields)

theorem redact_first_match_only_witness:
  "\<exists>s'. redact plain_renderer empty_form \<lparr> rd_redacts = ''$b'', rd_reason = None \<rparr> example_view
          = Inr s'
        \<and> map ev_time (confirmed_events s') = [Some 0, None, Some 120000]
        \<and> map ev_content (confirmed_events s') = [hi_content, [], hi_content]
        \<and> pending s' = pending example_view"
proof -
  let ?r = "\<lparr> rd_redacts = ''$b'', rd_reason = None \<rparr>"
  let ?es = "confirmed_events example_view"
  have es: "?es = [EventLike_real 0 no_members (message_event ''$a'' ''@alice:hs'' 0 None),
               EventLike_real 1 no_members (message_event ''$b'' ''@alice:hs'' 60000 None),
               EventLike_real 2 no_members (message_event ''$c'' ''@bob:hs'' 120000 None)]"
    by (simp add: confirmed_events_def example_view_def)
  have src: "source_id (?es ! 0) = Some ''$a''" "source_id (?es ! Suc 0) = Some ''$b''"
    by (simp_all add: es source_id_def example_fields message_event_fields)
  have k: "Suc 0 < length ?es \<and> source_id (?es ! Suc 0) = Some (rd_redacts ?r)
           \<and> (\<forall>j<Suc 0. source_id (?es ! j) \<noteq> Some (rd_redacts ?r))"
    using src by (simp add: es)
  obtain s' where s': "redact plain_renderer empty_form ?r example_view = Inr s'"
    "pending s' = pending example_view"
    "confirmed_events s' = ?es[Suc 0 := fst (EventLike_redact empty_form ?r (?es ! Suc 0))]"
    using redact_first_match_only[OF example_confirmed, of plain_renderer empty_form ?r] k
    by blast
  let ?b = "EventLike_real 1 no_members (message_event ''$b'' ''@alice:hs'' 60000 None)"
  have "ev_event ?b = Some (message_event ''$b'' ''@alice:hs'' 60000 None)"
    by (simp add: example_fields)
  then have red: "ev_time (fst (EventLike_redact empty_form ?r ?b)) = None"
    "ev_content (fst (EventLike_redact empty_form ?r ?b)) = []"
    by (simp_all add: EventLike_redact_def Room_redact_def empty_form_def Let_def)
  have "map ev_time (confirmed_events s') = [Some 0, None, Some 120000]"
    "map ev_content (confirmed_events s') = [hi_content, [], hi_content]"
    unfolding s'(3) es using red by (simp_all add: example_fields example_content)
  then show ?thesis using s'(1,2) by (intro exI[of _ s']) simp
qed

section \<open>The selection resolver\<close>

subsection \<open>A selection inside one region\<close>

lemma selection_for_contained:
  assumes "contained_selection sel"
  shows "selection_for i ty l bottom_selected sel para =
           (if cursor_in (s_begin sel) i ty para then
              Some \<lparr> continues = False,
                     affected = \<lparr> r_start = min (c_pos (s_begin sel)) (c_pos (s_end sel)),
                                  r_length = \<bar>c_pos (s_begin sel) - c_pos (s_end sel)\<bar> \<rparr> \<rparr>
            else if bottom_selected then
              Some \<lparr> continues = True, affected = \<lparr> r_start = 0, r_length = text_size l \<rparr> \<rparr>
            else None)"
proof -
  have "cursor_in (s_end sel) i ty para = cursor_in (s_begin sel) i ty para"
    using assms by (simp add: cursor_in_def contained_selection_def)
  moreover have "max (c_pos (s_begin sel)) (c_pos (s_end sel))
                 - min (c_pos (s_begin sel)) (c_pos (s_end sel))
                 = \<bar>c_pos (s_begin sel) - c_pos (s_end sel)\<bar>"
    by (simp add: max_def min_def)
  moreover have "int32 \<bar>c_pos (s_begin sel) - c_pos (s_end sel)\<bar>
                 = \<bar>c_pos (s_begin sel) - c_pos (s_end sel)\<bar>"
    using assms by (intro int32_small) (auto simp: contained_selection_def)
  moreover have "s_mode sel = CHARACTER" using assms by (simp add: contained_selection_def)
  ultimately show ?thesis by (simp add: selection_for_def Let_def)
qed

lemma resolve_contained:
  assumes "contained_selection sel"
  shows "next_selected False (selection_for i ty l False sel para) = False"
    and "contained_highlight sel
           \<lparr> d_event = i, d_type = ty, d_paragraph = para,
             d_selection = map_option affected (selection_for i ty l False sel para) \<rparr>"
  by (auto simp: selection_for_contained[OF assms] next_selected_def contained_highlight_def
      cursor_in_def)

lemma draw_paragraphs_contained:
  assumes "contained_selection sel"
  shows "snd (draw_paragraphs i sel ps False) = False
         \<and> list_all (contained_highlight sel) (fst (draw_paragraphs i sel ps False))"
proof (induction ps)
  case Nil
  then show ?case by simp
next
  case (Cons p ps)
  obtain index para where p: "p = (index, para)" by (cases p)
  obtain ds out where r: "draw_paragraphs i sel ps False = (ds, out)"
    by (cases "draw_paragraphs i sel ps False")
  show ?case
    using Cons r resolve_contained[OF assms, where i=i and ty=BODY and l=para and para=index]
    by (simp add: p Let_def)
qed

lemma draw_events_contained:
  assumes "contained_selection sel"
  shows "snd (draw_events sel es False) = False
         \<and> list_all (contained_highlight sel) (fst (draw_events sel es False))"
proof (induction es)
  case Nil
  then show ?case by simp
next
  case (Cons e es)
  let ?ps = "rev (zip [0..<length (be_paragraphs e)] (be_paragraphs e))"
  obtain ds b1 where r1: "draw_paragraphs (be_id e) sel ?ps False = (ds, b1)"
    by (cases "draw_paragraphs (be_id e) sel ?ps False")
  have p: "b1 = False" "list_all (contained_highlight sel) ds"
    using draw_paragraphs_contained[OF assms, of "be_id e" ?ps] r1 by simp_all
  obtain ds' out where r2: "draw_events sel es False = (ds', out)"
    by (cases "draw_events sel es False")
  show ?case using Cons r1 r2 p by simp
qed

lemma draw_contained:
  assumes "contained_selection sel"
    and "eb_events b \<noteq> []"
  shows "\<exists>ds. draw b False sel = Inr (ds, False) \<and> list_all (contained_highlight sel) ds"
proof -
  obtain front rest where fr: "eb_events b = front # rest"
    using assms(2) by (cases "eb_events b") auto
  obtain ds b1 where r: "draw_events sel (rev (eb_events b)) False = (ds, b1)"
    by (cases "draw_events sel (rev (eb_events b)) False")
  have p: "b1 = False" "list_all (contained_highlight sel) ds"
    using draw_events_contained[OF assms(1), of "rev (eb_events b)"] r by simp_all
  show ?thesis
    unfolding draw_def r
    using p fr resolve_contained[OF assms(1), where i="be_id front" and ty=TIMESTAMP and l="eb_timestamp b" and para=0]
      resolve_contained[OF assms(1), where i="be_id front" and ty=NAME and l="eb_name b" and para=0]
    by (simp add: Let_def)
qed

lemma paint_blocks_contained:
  assumes "contained_selection sel"
    and "\<forall>b\<in>set bs. eb_events b \<noteq> []"
  shows "\<exists>ds. paint_blocks sel bs False = Inr (ds, False)
              \<and> list_all (contained_highlight sel) ds"
  using assms(2)
proof (induction bs)
  case Nil
  then show ?case by simp
next
  case (Cons b bs)
  obtain ds where d: "draw b False sel = Inr (ds, False)" "list_all (contained_highlight sel) ds"
    using draw_contained[OF assms(1), of b] Cons.prems by auto
  obtain ds' where d': "paint_blocks sel bs False = Inr (ds', False)"
    "list_all (contained_highlight sel) ds'"
    using Cons by auto
  show ?case using d d' by simp
qed


text \<open>
  Claim C5. Let the selection be in \<open>CHARACTER\<close> mode with both cursors in the same
  region, at offsets that are not negative (and are values of a 32-bit \<open>int\<close>).
  Resolving that region gives the highlight that starts at the smaller offset and has the
  distance of the two offsets as its length, and the continuation flag \<open>false\<close>,
  whatever the flag coming from below. The traversal of any blocks, started with the flag
  \<open>false\<close>, ends with the flag \<open>false\<close>; it reports that highlight for the region of
  the cursors and no highlight for any other region.
\<close>

theorem contained_selection_highlights_one_region:
  assumes "s_mode sel = CHARACTER" "c_event (s_begin sel) = c_event (s_end sel)"
    "c_type (s_begin sel) = c_type (s_end sel)"
    "c_paragraph (s_begin sel) = c_paragraph (s_end sel)"
    and "0 \<le> c_pos (s_begin sel)" "c_pos (s_begin sel) \<le> 2147483647"
    and "0 \<le> c_pos (s_end sel)" "c_pos (s_end sel) \<le> 2147483647"
    and "\<forall>b\<in>set bs. eb_events b \<noteq> []"
  shows "(\<forall>i ty l bottom_selected para.
            cursor_in (s_begin sel) i ty para \<and> cursor_in (s_end sel) i ty para \<longrightarrow>
            selection_for i ty l bottom_selected sel para =
              Some \<lparr> continues = False,
                     affected = \<lparr> r_start = min (c_pos (s_begin sel)) (c_pos (s_end sel)),
                                  r_length = \<bar>c_pos (s_begin sel) - c_pos (s_end sel)\<bar> \<rparr> \<rparr>)
         \<and> (\<exists>ds. paint_blocks sel bs False = Inr (ds, False)
               \<and> (\<forall>d\<in>set ds.
                     d_selection d =
                       (if d_event d = c_event (s_begin sel) \<and> d_type d = c_type (s_begin sel)
                           \<and> d_paragraph d = c_paragraph (s_begin sel)
                        then Some \<lparr> r_start = min (c_pos (s_begin sel)) (c_pos (s_end sel)),
                                    r_length = \<bar>c_pos (s_begin sel) - c_pos (s_end sel)\<bar> \<rparr>
                        else None)))"
proof -
  have c: "contained_selection sel"
    using assms(1-8) by (simp add: contained_selection_def)
  obtain ds where ds: "paint_blocks sel bs False = Inr (ds, False)"
    "list_all (contained_highlight sel) ds"
    using paint_blocks_contained[OF c assms(9)] by blast
  have "\<forall>d\<in>set ds. contained_highlight sel d" using ds(2) by (simp add: list_all_iff)
  then show ?thesis
    using ds(1) by (simp add: selection_for_contained[OF c] contained_highlight_def)
qed

lemma example_block_paint:
  "\<exists>ds out. paint_blocks sel [example_block] False = Inr (ds, out) \<and> length ds = 5"
  by (simp add: draw_def example_block_def Let_def split: prod.splits)

theorem contained_selection_highlights_one_region_witness:
  "\<exists>ds. paint_blocks \<lparr> s_begin = body_cursor 0 1 5, s_end = body_cursor 0 1 2, s_mode = CHARACTER \<rparr>
          [example_block] False = Inr (ds, False)
        \<and> length ds = 5
        \<and> (\<forall>d\<in>set ds.
              d_selection d =
                (if d_event d = 0 \<and> d_type d = BODY \<and> d_paragraph d = 1
                 then Some \<lparr> r_start = 2, r_length = 3 \<rparr> else None))
        \<and> selection_for 0 BODY (plain_layout ''second line'') True
            \<lparr> s_begin = body_cursor 0 1 5, s_end = body_cursor 0 1 2, s_mode = CHARACTER \<rparr> 1
          = Some \<lparr> continues = False, affected = \<lparr> r_start = 2, r_length = 3 \<rparr> \<rparr>"
proof -
  let ?sel = "\<lparr> s_begin = body_cursor 0 1 5, s_end = body_cursor 0 1 2, s_mode = CHARACTER \<rparr>"
  have h: "s_mode ?sel = CHARACTER" "c_event (s_begin ?sel) = c_event (s_end ?sel)"
    "c_type (s_begin ?sel) = c_type (s_end ?sel)"
    "c_paragraph (s_begin ?sel) = c_paragraph (s_end ?sel)"
    "0 \<le> c_pos (s_begin ?sel)" "c_pos (s_begin ?sel) \<le> 2147483647"
    "0 \<le> c_pos (s_end ?sel)" "c_pos (s_end ?sel) \<le> 2147483647"
    "\<forall>b\<in>set [example_block]. eb_events b \<noteq> []"
    by (simp_all add: body_cursor_def example_block_def)
  have c: "cursor_in (s_begin ?sel) 0 BODY 1 \<and> cursor_in (s_end ?sel) 0 BODY 1"
    by (simp add: cursor_in_def body_cursor_def)
  note one = contained_selection_highlights_one_region[OF h]
  obtain ds' out where e: "paint_blocks ?sel [example_block] False = Inr (ds', out)"
    "length ds' = 5"
    using example_block_paint[of ?sel] by blast
  show ?thesis
    using one c e by (auto simp: body_cursor_def)
qed

subsection \<open>A region with one endpoint of the selection\<close>

lemma one_endpoint_ranges:
  assumes "s_mode sel = CHARACTER"
    and "cursor_in (s_begin sel) i ty para \<noteq> cursor_in (s_end sel) i ty para"
    and "endpoint = c_pos (if cursor_in (s_begin sel) i ty para then s_begin sel else s_end sel)"
  shows "selection_for i ty l True sel para
           = Some \<lparr> continues = False,
                    affected = \<lparr> r_start = max 0 endpoint,
                                 r_length = text_size l - max 0 endpoint \<rparr> \<rparr>"
    and "selection_for i ty l False sel para
           = Some \<lparr> continues = True,
                    affected = \<lparr> r_start = 0, r_length = min (text_size l) endpoint \<rparr> \<rparr>"
  using assms by (auto simp: selection_for_def Let_def)

lemma highlighted_to_end:
  "highlighted l \<lparr> r_start = max 0 e, r_length = text_size l - max 0 e \<rparr>
   = filter (\<lambda>k. e \<le> int k) [0..<length (l_text l)]"
  unfolding highlighted_def by (rule filter_cong) (auto simp: text_size_def)

lemma highlighted_from_start:
  "highlighted l \<lparr> r_start = 0, r_length = min (text_size l) e \<rparr>
   = filter (\<lambda>k. int k < e) [0..<length (l_text l)]"
  unfolding highlighted_def by (rule filter_cong) (auto simp: text_size_def)

text \<open>
  Claim C6. In \<open>CHARACTER\<close> mode, for a region that exactly one cursor of the selection
  addresses, with \<open>endpoint\<close> the offset of that cursor: if the selection continues from
  below, the highlight covers the characters of the text from the endpoint's offset to
  the end of the text, and the outgoing flag is \<open>false\<close>; otherwise it covers the
  characters from the start of the text up to the endpoint's offset, and the outgoing flag
  is \<open>true\<close>. For an endpoint inside the text the range is the one from the endpoint to
  the length of the text, respectively from 0 to the endpoint.
\<close>

theorem one_endpoint_resolution:
  assumes "s_mode sel = CHARACTER"
    and "cursor_in (s_begin sel) i ty para \<noteq> cursor_in (s_end sel) i ty para"
    and "endpoint = c_pos (if cursor_in (s_begin sel) i ty para then s_begin sel else s_end sel)"
  shows "(\<exists>r. selection_for i ty l True sel para = Some r \<and> continues r = False
              \<and> highlighted l (affected r)
                  = filter (\<lambda>k. endpoint \<le> int k) [0..<length (l_text l)])
         \<and> (\<exists>r. selection_for i ty l False sel para = Some r \<and> continues r = True
              \<and> highlighted l (affected r)
                  = filter (\<lambda>k. int k < endpoint) [0..<length (l_text l)])
         \<and> (0 \<le> endpoint \<and> endpoint \<le> text_size l \<longrightarrow>
              selection_for i ty l True sel para
                = Some \<lparr> continues = False,
                         affected = \<lparr> r_start = endpoint, r_length = text_size l - endpoint \<rparr> \<rparr>
              \<and> selection_for i ty l False sel para
                = Some \<lparr> continues = True,
                         affected = \<lparr> r_start = 0, r_length = endpoint \<rparr> \<rparr>)"
proof -
  note r = one_endpoint_ranges[OF assms, of l]
  have "\<exists>r. selection_for i ty l True sel para = Some r \<and> continues r = False
              \<and> highlighted l (affected r)
                  = filter (\<lambda>k. endpoint \<le> int k) [0..<length (l_text l)]"
    by (simp add: r(1) highlighted_to_end)
  moreover have "\<exists>r. selection_for i ty l False sel para = Some r \<and> continues r = True
              \<and> highlighted l (affected r)
                  = filter (\<lambda>k. int k < endpoint) [0..<length (l_text l)]"
    by (simp add: r(2) highlighted_from_start)
  moreover have "0 \<le> endpoint \<and> endpoint \<le> text_size l \<longrightarrow>
              selection_for i ty l True sel para
                = Some \<lparr> continues = False,
                         affected = \<lparr> r_start = endpoint, r_length = text_size l - endpoint \<rparr> \<rparr>
              \<and> selection_for i ty l False sel para
                = Some \<lparr> continues = True,
                         affected = \<lparr> r_start = 0, r_length = endpoint \<rparr> \<rparr>"
    by (simp add: r max_def min_def)
  ultimately show ?thesis by blast
qed

theorem one_endpoint_resolution_witness:
  "(\<exists>r. selection_for 0 BODY (plain_layout ''hello world'') True
          \<lparr> s_begin = body_cursor 0 0 4, s_end = body_cursor 1 0 0, s_mode = CHARACTER \<rparr> 0
          = Some r
        \<and> continues r = False
        \<and> highlighted (plain_layout ''hello world'') (affected r) = [4, 5, 6, 7, 8, 9, 10])
   \<and> (\<exists>r. selection_for 0 BODY (plain_layout ''hello world'') False
          \<lparr> s_begin = body_cursor 0 0 4, s_end = body_cursor 1 0 0, s_mode = CHARACTER \<rparr> 0
          = Some r
        \<and> continues r = True
        \<and> highlighted (plain_layout ''hello world'') (affected r) = [0, 1, 2, 3])
   \<and> selection_for 0 BODY (plain_layout ''hello world'') True
        \<lparr> s_begin = body_cursor 0 0 4, s_end = body_cursor 1 0 0, s_mode = CHARACTER \<rparr> 0
        = Some \<lparr> continues = False, affected = \<lparr> r_start = 4, r_length = 7 \<rparr> \<rparr>
   \<and> selection_for 0 BODY (plain_layout ''hello world'') False
        \<lparr> s_begin = body_cursor 0 0 4, s_end = body_cursor 1 0 0, s_mode = CHARACTER \<rparr> 0
        = Some \<lparr> continues = True, affected = \<lparr> r_start = 0, r_length = 4 \<rparr> \<rparr>"
proof -
  let ?sel = "\<lparr> s_begin = body_cursor 0 0 4, s_end = body_cursor 1 0 0, s_mode = CHARACTER \<rparr>"
  have m: "s_mode ?sel = CHARACTER" by simp
  have one: "cursor_in (s_begin ?sel) 0 BODY 0 \<noteq> cursor_in (s_end ?sel) 0 BODY 0"
    by (simp add: cursor_in_def body_cursor_def)
  have e: "(4::int) = c_pos (if cursor_in (s_begin ?sel) 0 BODY 0 then s_begin ?sel else s_end ?sel)"
    by (simp add: cursor_in_def body_cursor_def)
  have r: "0 \<le> (4::int) \<and> 4 \<le> text_size (plain_layout ''hello world'')"
    by (simp add: text_size_def plain_layout_def)
  have up: "filter (\<lambda>k. 4 \<le> int k) [0..<length (l_text (plain_layout ''hello world''))]
            = [4, 5, 6, 7, 8, 9, 10]"
    "filter (\<lambda>k. int k < 4) [0..<length (l_text (plain_layout ''hello world''))]
            = [0, 1, 2, 3]"
    by (simp_all add: plain_layout_def upt_rec[of _ "numeral _"] upt_rec[of 0])
  note res = one_endpoint_resolution[OF m one e, of "plain_layout ''hello world''", unfolded up]
  have "text_size (plain_layout ''hello world'') - 4 = 7"
    by (simp add: text_size_def plain_layout_def)
  then show ?thesis using res r by auto
qed

subsection \<open>Word and paragraph mode\<close>

lemma selection_for_paragraph_mode:
  assumes "s_mode sel = PARAGRAPH" "selection_for i ty l bottom_selected sel para = Some r"
  shows "affected r = \<lparr> r_start = 0, r_length = text_size l \<rparr>"
  using assms by (auto simp: selection_for_def Let_def split: if_splits)

lemma selection_for_word_mode:
  assumes "selection_for i ty l bottom_selected (sel\<lparr> s_mode := CHARACTER \<rparr>) para = Some c"
  shows "selection_for i ty l bottom_selected (sel\<lparr> s_mode := WORD \<rparr>) para
         = Some (c\<lparr> affected :=
                     \<lparr> r_start = previousCursorPosition l (r_start (affected c)),
                       r_length = nextCursorPosition l
                                    (int32 (r_start (affected c) + r_length (affected c))) \<rparr> \<rparr>)"
  using assms by (auto simp: selection_for_def Let_def split: if_splits)

text \<open>
  Claim C4, at a concrete input. The text of the region is \<open>aa bbb\<close>, of six characters,
  and both cursors lie in its second word, at offsets 4 and 5, in \<open>WORD\<close> mode. The
  start is moved back to the word boundary 3, but the length is set to the position 6
  that \<open>nextCursorPosition\<close> returns, not to the distance from the new start: the
  returned range ends at offset 9, beyond the text.
\<close>

theorem word_mode_length_is_a_position:
  "selection_for 0 BODY (plain_layout ''aa bbb'') False
     \<lparr> s_begin = body_cursor 0 0 4, s_end = body_cursor 0 0 5, s_mode = WORD \<rparr> 0
   = Some \<lparr> continues = False, affected = \<lparr> r_start = 3, r_length = 6 \<rparr> \<rparr>
   \<and> text_size (plain_layout ''aa bbb'') = 6"
  by (simp add: selection_for_def cursor_in_def body_cursor_def plain_layout_def next_word_def
      previous_word_def is_word_start_def text_size_def upt_rec[of _ "numeral _"] upt_rec[of 0]
      Let_def int32_small)

section \<open>The invariant of the view\<close>

text \<open>
  The hypotheses of the theorems above on the view (confirmed records in the batches,
  distinct identifiers) hold in the initial view and are kept by every operation that
  returns.
\<close>

lemma view_invariant_initial: "view_invariant TimelineView"
  by (simp add: view_invariant_def batches_confirmed_def all_records_def confirmed_events_def
      TimelineView_def)

lemma rebuild_blocks_invariant:
  assumes "rebuild_blocks R s = Inr s'"
  shows "view_invariant s' = view_invariant s"
proof -
  obtain bl where "rebuild_blocks R s = Inr (s\<lparr> blocks := bl \<rparr>)"
    using rebuild_blocks_Inr by blast
  then have "s' = s\<lparr> blocks := bl \<rparr>" using assms by simp
  then show ?thesis
    by (simp add: view_invariant_def batches_confirmed_def all_records_def confirmed_events_def)
qed

lemma view_invariant_fresh:
  assumes "view_invariant s"
    and "batches_confirmed s'"
    and "all_records s' = xs @ new # ys" "ev_id new = id_counter s"
    and "set (xs @ ys) \<subseteq> set (all_records s)" "distinct (map ev_id (xs @ ys))"
    and "id_counter s' = Suc (id_counter s)"
  shows "view_invariant s'"
proof -
  have old: "\<forall>e\<in>set (all_records s). ev_id e < id_counter s"
    using assms(1) by (simp add: view_invariant_def list_all_iff)
  then have lt: "\<forall>e\<in>set (xs @ ys). ev_id e < id_counter s" using assms(5) by blast
  then have "\<forall>e\<in>set (xs @ ys). ev_id e \<noteq> ev_id new"
    using assms(4) by (metis nat_neq_iff)
  then have "distinct (map ev_id (xs @ new # ys))" using assms(6) by auto
  moreover have "list_all (\<lambda>e. ev_id e < Suc (id_counter s)) (xs @ new # ys)"
    using lt assms(4) by (auto simp: list_all_iff less_Suc_eq)
  ultimately show ?thesis using assms(2,3,7) by (simp add: view_invariant_def)
qed

lemma prepend_invariant:
  assumes "view_invariant s" "prepend R begin state evt s = Inr s'"
  shows "view_invariant s'"
proof -
  define new where "new = EventLike_real (id_counter s) state evt"
  define bs where
    "bs = (case batches s of
             [] \<Rightarrow> [\<lparr> b_begin = begin, b_events = [new] \<rparr>]
           | b # rest \<Rightarrow>
               if b_begin b = begin then b\<lparr> b_events := new # b_events b \<rparr> # rest
               else \<lparr> b_begin = begin, b_events = [new] \<rparr> # b # rest)"
  define ps where
    "ps = (case re_unsigned_data evt of
             None \<Rightarrow> pending s
           | Some u \<Rightarrow>
               (case transaction_id u of
                  None \<Rightarrow> pending s
                | Some txid \<Rightarrow> filter (\<lambda>p. p_transaction p \<noteq> txid) (pending s)))"
  define s2 where "s2 = s\<lparr> id_counter := id_counter s + 1, batches := bs, pending := ps \<rparr>"
  have "prepend R begin state evt s = rebuild_blocks R s2"
    unfolding prepend_def get_id_def s2_def bs_def ps_def new_def
    by (simp add: Let_def split: option.splits)
  then have r: "rebuild_blocks R s2 = Inr s'" using assms(2) by simp
  have cb: "concat (map b_events bs) = new # concat (map b_events (batches s))"
    unfolding bs_def by (cases "batches s") auto
  obtain f where ps: "ps = filter f (pending s)"
  proof (cases "re_unsigned_data evt")
    case None
    then have "ps = filter (\<lambda>p. True) (pending s)" by (simp add: ps_def)
    then show ?thesis using that by blast
  next
    case (Some u)
    show ?thesis
    proof (cases "transaction_id u")
      case None
      then have "ps = filter (\<lambda>p. True) (pending s)" using Some by (simp add: ps_def)
      then show ?thesis using that by blast
    next
      case (Some txid)
      then have "ps = filter (\<lambda>p. p_transaction p \<noteq> txid) (pending s)"
        using \<open>re_unsigned_data evt = Some u\<close> by (simp add: ps_def)
      then show ?thesis using that by blast
    qed
  qed
  have all: "all_records s2 = [] @ new # (confirmed_events s @ map p_event ps)"
    by (simp add: all_records_def confirmed_events_def s2_def cb)
  have d: "distinct (map ev_id (all_records s))"
    using assms(1) by (simp add: view_invariant_def)
  have "distinct (map ev_id (confirmed_events s @ map p_event ps))"
    using d unfolding ps all_records_def by (auto simp: distinct_map_filter)
  moreover have "set (confirmed_events s @ map p_event ps) \<subseteq> set (all_records s)"
    unfolding ps all_records_def by auto
  moreover have "batches_confirmed s2"
    using assms(1)
    by (simp add: view_invariant_def batches_confirmed_def confirmed_events_def s2_def cb
        new_def EventLike_real_fields)
  moreover have "ev_id new = id_counter s" by (simp add: new_def EventLike_real_fields)
  moreover have "id_counter s2 = Suc (id_counter s)" by (simp add: s2_def)
  ultimately have "view_invariant s2"
    using view_invariant_fresh[OF assms(1), of s2 "[]" new "confirmed_events s @ map p_event ps"] all
    by simp
  then show ?thesis using rebuild_blocks_invariant[OF r] by simp
qed

lemma add_pending_invariant:
  assumes "view_invariant s" "add_pending R transaction state self t ty c affected_user s = Inr s'"
  shows "view_invariant s'"
proof -
  define new where "new = EventLike (id_counter s) state self t ty c affected_user None"
  define s2 where
    "s2 = s\<lparr> id_counter := id_counter s + 1,
            pending := pending s @ [\<lparr> p_transaction = transaction, p_event = new \<rparr>] \<rparr>"
  have r: "rebuild_blocks R s2 = Inr s'"
    using assms(2) unfolding add_pending_def get_id_def s2_def new_def by simp
  have all: "all_records s2 = all_records s @ new # []"
    by (simp add: all_records_def confirmed_events_def s2_def)
  have "batches_confirmed s2"
    using assms(1)
    by (simp add: view_invariant_def batches_confirmed_def confirmed_events_def s2_def)
  moreover have "ev_id new = id_counter s" by (simp add: new_def EventLike_def)
  moreover have "id_counter s2 = Suc (id_counter s)" by (simp add: s2_def)
  moreover have "distinct (map ev_id (all_records s @ []))"
    using assms(1) by (simp add: view_invariant_def)
  ultimately have "view_invariant s2"
    using view_invariant_fresh[OF assms(1), of s2 "all_records s" new "[]"] all by simp
  then show ?thesis using rebuild_blocks_invariant[OF r] by simp
qed


lemma distinct_replace_pending:
  assumes "distinct (map f (xs @ map g ps))" "p \<in> set ps" "f new = f (g p)"
  shows "distinct (map f (xs @ new # map g (remove1 p ps)))"
proof -
  have dx: "distinct (map f xs)" and dp: "distinct (map (\<lambda>q. f (g q)) ps)"
    and disj: "\<forall>x\<in>set xs. \<forall>q\<in>set ps. f x \<noteq> f (g q)"
    using assms(1) by (auto simp: comp_def)
  have dps: "distinct ps" using dp by (simp add: distinct_map)
  have inj: "inj_on (\<lambda>q. f (g q)) (set ps)" using dp by (simp add: distinct_map)
  have sub: "set (remove1 p ps) \<subseteq> set ps" by (rule set_remove1_subset)
  have "\<forall>q\<in>set (remove1 p ps). f (g q) \<noteq> f (g p)"
  proof
    fix q assume "q \<in> set (remove1 p ps)"
    then have "q \<in> set ps" "q \<noteq> p" using dps by auto
    then show "f (g q) \<noteq> f (g p)" using inj assms(2) by (auto simp: inj_on_def)
  qed
  moreover have "distinct (map (\<lambda>q. f (g q)) (remove1 p ps))"
    using dp inj sub by (simp add: distinct_map distinct_remove1 inj_on_def subset_iff)
  moreover have "\<forall>x\<in>set xs. f x \<noteq> f (g p)" using disj assms(2) by blast
  moreover have "\<forall>x\<in>set xs. \<forall>q\<in>set (remove1 p ps). f x \<noteq> f (g q)"
    using disj sub by blast
  ultimately show ?thesis using dx assms(3) by (auto simp: comp_def)
qed

lemma append_invariant:
  assumes "view_invariant s" "append R begin state evt s = Inr s'"
  shows "view_invariant s'"
proof (cases "event_transaction evt")
  case None
  define new where "new = EventLike_real (id_counter s) state evt"
  define bs where
    "bs = (if batches s \<noteq> [] \<and> b_begin (last (batches s)) = begin
           then butlast (batches s)
                @ [(last (batches s))\<lparr> b_events := b_events (last (batches s)) @ [new] \<rparr>]
           else batches s @ [\<lparr> b_begin = begin, b_events = [new] \<rparr>])"
  define s2 where "s2 = s\<lparr> id_counter := id_counter s + 1, batches := bs \<rparr>"
  consider (no_unsigned) "re_unsigned_data evt = None"
    | (no_token) u where "re_unsigned_data evt = Some u" "transaction_id u = None"
    using None by (auto simp: event_transaction_def split: option.splits)
  then have "append R begin state evt s = rebuild_blocks R s2"
  proof cases
    case no_unsigned
    then show ?thesis
      unfolding append_def get_id_def s2_def bs_def new_def by (simp add: Let_def)
  next
    case no_token
    then show ?thesis
      unfolding append_def get_id_def s2_def bs_def new_def by (simp add: Let_def)
  qed
  then have r: "rebuild_blocks R s2 = Inr s'" using assms(2) by simp
  have cb: "concat (map b_events bs) = concat (map b_events (batches s)) @ [new]"
    unfolding bs_def by (rule confirmed_events_push_back)
  have all: "all_records s2 = confirmed_events s @ new # map p_event (pending s)"
    by (simp add: all_records_def confirmed_events_def s2_def cb)
  have "batches_confirmed s2"
    using assms(1)
    by (simp add: view_invariant_def batches_confirmed_def confirmed_events_def s2_def cb
        new_def EventLike_real_fields)
  moreover have "ev_id new = id_counter s" by (simp add: new_def EventLike_real_fields)
  moreover have "id_counter s2 = Suc (id_counter s)" by (simp add: s2_def)
  moreover have "distinct (map ev_id (confirmed_events s @ map p_event (pending s)))"
    using assms(1) by (simp add: view_invariant_def all_records_def)
  moreover have "set (confirmed_events s @ map p_event (pending s)) \<subseteq> set (all_records s)"
    by (simp add: all_records_def)
  ultimately have "view_invariant s2"
    using view_invariant_fresh[OF assms(1), of s2 "confirmed_events s" new
        "map p_event (pending s)"] all
    by simp
  then show ?thesis using rebuild_blocks_invariant[OF r] by simp
next
  case (Some txid)
  show ?thesis
  proof (cases "first_pending txid (pending s)")
    case None
    then show ?thesis using append_unmatched[OF Some None] assms(2) by simp
  next
    case p: (Some p)
    let ?new = "EventLike_real (ev_id (p_event p)) state evt"
    obtain s'' where s'': "append R begin state evt s = Inr s''"
      "confirmed_events s'' = confirmed_events s @ [?new]"
      "pending s'' = remove1 p (pending s)" "id_counter s'' = id_counter s"
      using append_matched[OF Some p] by blast
    have eq: "s'' = s'" using s''(1) assms(2) by simp
    have pin: "p \<in> set (pending s)"
      using p by (auto simp: first_pending_def find_Some_iff)
    have all: "all_records s' = confirmed_events s @ ?new # map p_event (remove1 p (pending s))"
      using s''(2,3) by (simp add: all_records_def eq)
    have d: "distinct (map ev_id (all_records s'))"
      unfolding all
      using distinct_replace_pending[of ev_id "confirmed_events s" p_event "pending s" p ?new]
        assms(1) pin
      by (simp add: view_invariant_def all_records_def EventLike_real_fields)
    have old: "\<forall>e\<in>set (all_records s). ev_id e < id_counter s"
      using assms(1) by (simp add: view_invariant_def list_all_iff)
    have "set (remove1 p (pending s)) \<subseteq> set (pending s)" by (rule set_remove1_subset)
    then have lt: "list_all (\<lambda>e. ev_id e < id_counter s') (all_records s')"
      unfolding all using old pin s''(4)
      by (auto simp: list_all_iff all_records_def EventLike_real_fields eq)
    have "batches_confirmed s'"
      using assms(1) s''(2)
      by (simp add: view_invariant_def batches_confirmed_def eq EventLike_real_fields)
    then show ?thesis using d lt by (simp add: view_invariant_def)
  qed
qed

lemma EventLike_redact_id: "ev_id (fst (EventLike_redact rf r e)) = ev_id e"
  by (simp add: EventLike_redact_def Let_def split: option.splits)

lemma redact_first_ids: "map ev_id (redact_first rf r es) = map ev_id es"
  by (induction es) (simp_all add: EventLike_redact_id)

lemma redact_invariant:
  assumes "view_invariant s" "redact R rf r s = Inr s'"
  shows "view_invariant s'"
proof -
  have c: "batches_confirmed s" using assms(1) by (simp add: view_invariant_def)
  obtain s'' where s'': "redact R rf r s = Inr s''"
    "confirmed_events s'' = redact_first rf r (confirmed_events s)"
    "pending s'' = pending s" "id_counter s'' = id_counter s" "batches_confirmed s''"
    using redact_refines[OF c, of R rf r] by blast
  have eq: "s'' = s'" using s''(1) assms(2) by simp
  have ids: "map ev_id (all_records s') = map ev_id (all_records s)"
    using s''(2,3) by (simp add: all_records_def eq redact_first_ids)
  have "list_all (\<lambda>e. ev_id e < id_counter s') (all_records s')
        = list_all (\<lambda>i. i < id_counter s) (map ev_id (all_records s'))"
    using s''(4) by (simp add: list_all_iff eq)
  also have "\<dots> = list_all (\<lambda>e. ev_id e < id_counter s) (all_records s)"
    unfolding ids by (simp add: list_all_iff)
  finally show ?thesis
    using assms(1) s''(5) ids by (simp add: view_invariant_def eq)
qed


lemma set_at_bottom_invariant: "view_invariant (set_at_bottom v s) = view_invariant s"
  by (simp add: set_at_bottom_def view_invariant_def batches_confirmed_def all_records_def
      confirmed_events_def)

lemma example_view_invariant: "view_invariant example_view"
  using example_confirmed
  by (simp add: view_invariant_def all_records_def confirmed_events_def example_view_def
      example_fields)

end
